theory Spec2Isabelle
  imports Main
begin

section \<open>The memory model\<close>

text \<open>
  The list of \<^verbatim>\<open>ll.c\<close> is a chain of heap nodes. Pointers are natural numbers and
  \<open>0\<close> is the null pointer. The heap maps the address of every live node to its
  contents; an address that maps to \<open>None\<close> is not allocated (never was, or was freed).
  Dereferencing the null pointer or a freed node is a fault of the run, as is calling a
  null function pointer and a failed \<^verbatim>\<open>assert\<close>.

  The model follows one thread and does not interpret the reader/writer locks: every
  lock call returns, and what the code does with the locks is recorded, call by call,
  in a trace, together with the calls of the callbacks (\<^verbatim>\<open>val_teardown\<close>,
  \<^verbatim>\<open>val_printer\<close>, the function given to \<^verbatim>\<open>ll_map\<close>). A callback gets the value
  pointer only and does not touch the list.
\<close>

type_synonym addr = nat
type_synonym ptr = nat
type_synonym fptr = nat

abbreviation (input) NULL :: nat where
  "NULL \<equiv> 0"

definition INT_MAX :: int where
  "INT_MAX = 2147483647"

definition INT_MIN :: int where
  "INT_MIN = - 2147483648"

text \<open>The value a 32-bit \<^verbatim>\<open>int\<close> holds after an arithmetic result \<open>x\<close> (two's complement).\<close>

definition c_int :: "int \<Rightarrow> int" where
  "c_int x = (x + 2147483648) mod 4294967296 - 2147483648"

datatype valid_flag_t = INVALID | VALID

datatype locktype_t = l_read | l_write

record ll_node =
  val :: ptr
  nxt :: addr

record ll =
  len :: int
  hd_node :: addr
  val_teardown :: fptr
  val_printer :: fptr
  valid_flag :: valid_flag_t

datatype fault = NullDeref | UseAfterFree | NullCall | AssertFailed

datatype lockobj = ListLock | NodeLock addr | CopyLock

datatype event =
    Lock lockobj locktype_t
  | Unlock lockobj
  | LockInit lockobj
  | LockDestroy lockobj
  | Call fptr ptr
  | PrintOpen
  | PrintClose int

record world =
  lst :: ll
  heap :: "addr \<Rightarrow> ll_node option"
  trace :: "event list"

definition emit :: "event list \<Rightarrow> world \<Rightarrow> world" where
  "emit es w = w\<lparr>trace := trace w @ es\<rparr>"

text \<open>Reading \<^verbatim>\<open>*p\<close> for a node pointer \<open>p\<close>.\<close>

definition node_at :: "world \<Rightarrow> addr \<Rightarrow> fault + ll_node" where
  "node_at w p =
     (if p = NULL then Inl NullDeref
      else case heap w p of None \<Rightarrow> Inl UseAfterFree | Some nd \<Rightarrow> Inr nd)"

text \<open>The assignment \<^verbatim>\<open>p->nxt = q\<close>.\<close>

definition set_nxt :: "world \<Rightarrow> addr \<Rightarrow> addr \<Rightarrow> fault + world" where
  "set_nxt w p q =
     (case node_at w p of
        Inl e \<Rightarrow> Inl e
      | Inr nd \<Rightarrow> Inr (w\<lparr>heap := (heap w)(p \<mapsto> nd\<lparr>nxt := q\<rparr>)\<rparr>))"

definition free_node :: "addr \<Rightarrow> world \<Rightarrow> world" where
  "free_node p w = w\<lparr>heap := (heap w)(p := None)\<rparr>"

definition set_len :: "int \<Rightarrow> world \<Rightarrow> world" where
  "set_len k w = w\<lparr>lst := (lst w)\<lparr>len := k\<rparr>\<rparr>"

definition set_hd :: "addr \<Rightarrow> world \<Rightarrow> world" where
  "set_hd p w = w\<lparr>lst := (lst w)\<lparr>hd_node := p\<rparr>\<rparr>"

text \<open>The calls of callbacks in a trace, in order.\<close>

fun calls :: "event list \<Rightarrow> (fptr \<times> ptr) list" where
  "calls [] = []"
| "calls (Call f v # es) = (f, v) # calls es"
| "calls (e # es) = calls es"


section \<open>Lifecycle\<close>

text \<open>
  \<^verbatim>\<open>ll_new\<close> leaves \<^verbatim>\<open>val_printer\<close> as \<^verbatim>\<open>malloc\<close> returned it; the parameter
  \<open>junk\<close> is that content.
\<close>

definition ll_new :: "fptr \<Rightarrow> fptr \<Rightarrow> world" where
  "ll_new td junk =
     \<lparr>lst = \<lparr>len = 0, hd_node = NULL, val_teardown = td, val_printer = junk,
              valid_flag = VALID\<rparr>,
      heap = (\<lambda>a. None),
      trace = [LockInit ListLock]\<rparr>"

text \<open>The loop of \<^verbatim>\<open>ll_clear\<close>. It does not return on a chain that never reaches null.\<close>

partial_function (option) clear_loop :: "world \<Rightarrow> addr \<Rightarrow> (fault + world) option" where
  "clear_loop w next =
     (if next = NULL then Some (Inr w)
      else
        (case node_at w next of
           Inl e \<Rightarrow> Some (Inl e)
         | Inr nd \<Rightarrow>
             if val_teardown (lst w) = NULL then Some (Inl NullCall)
             else clear_loop
                    (set_len (c_int (len (lst w) - 1))
                      (free_node next
                        (emit [Lock (NodeLock next) l_write,
                               Call (val_teardown (lst w)) (val nd),
                               Unlock (NodeLock next),
                               LockDestroy (NodeLock next)] w)))
                    (nxt nd)))"

definition ll_clear :: "world \<Rightarrow> (fault + world) option" where
  "ll_clear w =
     (let w1 = emit [Lock ListLock l_write] w in
      if valid_flag (lst w1) \<noteq> VALID then Some (Inr (emit [Unlock ListLock] w1))
      else
        (case clear_loop w1 (hd_node (lst w1)) of
           None \<Rightarrow> None
         | Some (Inl e) \<Rightarrow> Some (Inl e)
         | Some (Inr w2) \<Rightarrow>
             if len (lst w2) \<noteq> 0 then Some (Inl AssertFailed)
             else Some (Inr (emit [Unlock ListLock, LockDestroy ListLock]
                    (w2\<lparr>lst := (lst w2)\<lparr>hd_node := NULL, val_teardown := NULL,
                                         val_printer := NULL, valid_flag := INVALID\<rparr>\<rparr>)))))"

text \<open>
  After \<^verbatim>\<open>ll_delete\<close> the list object is gone: what remains is the node heap and the
  trace.
\<close>

definition ll_delete :: "world \<Rightarrow> (fault + (addr \<Rightarrow> ll_node option) \<times> event list) option" where
  "ll_delete w =
     (if valid_flag (lst w) \<noteq> INVALID then
        (case ll_clear w of
           None \<Rightarrow> None
         | Some (Inl e) \<Rightarrow> Some (Inl e)
         | Some (Inr w1) \<Rightarrow> Some (Inr (heap w1, trace w1)))
      else Some (Inr (heap w, trace w)))"

definition ll_length :: "world \<Rightarrow> world \<times> int" where
  "ll_length w =
     (let w1 = emit [Lock ListLock l_read] w in
      if valid_flag (lst w1) \<noteq> VALID then (emit [Unlock ListLock] w1, - 1)
      else (emit [Unlock ListLock] w1, len (lst w1)))"

text \<open>
  \<^verbatim>\<open>ll_new_node\<close>: the address \<open>p\<close> is what \<^verbatim>\<open>malloc\<close> returns. A null \<open>p\<close> (no
  memory) faults at the first store.
\<close>

definition ll_new_node :: "addr \<Rightarrow> ptr \<Rightarrow> world \<Rightarrow> fault + world \<times> addr" where
  "ll_new_node p v w =
     (if p = NULL then Inl NullDeref
      else Inr (emit [LockInit (NodeLock p)]
                  (w\<lparr>heap := (heap w)(p \<mapsto> \<lparr>val = v, nxt = NULL\<rparr>)\<rparr>), p))"


section \<open>Positional selection\<close>

text \<open>The \<^verbatim>\<open>for (; n > 1; n--)\<close> loop of \<^verbatim>\<open>ll_select_n_min_1\<close>, the first node locked.\<close>

function select_loop :: "world \<Rightarrow> addr \<Rightarrow> int \<Rightarrow> locktype_t \<Rightarrow> fault + world \<times> addr \<times> int" where
  "select_loop w node n lt =
     (if n > 1 then
        (case node_at w node of
           Inl e \<Rightarrow> Inl e
         | Inr nd \<Rightarrow>
             if nxt nd = NULL
             then Inr (emit [Unlock (NodeLock node), Unlock ListLock] w, NULL, - 1)
             else select_loop
                    (emit [Lock (NodeLock (nxt nd)) lt, Unlock (NodeLock node)] w)
                    (nxt nd) (n - 1) lt)
      else Inr (w, node, 0))"
  by pat_completeness auto
termination
  by (relation "measure (\<lambda>(w, node, n, lt). nat n)") auto

declare select_loop.simps [simp del]

text \<open>
  The result is the world, the content of \<^verbatim>\<open>*node\<close> and the returned \<^verbatim>\<open>int\<close>; the
  parameter \<open>node\<close> is the content of \<^verbatim>\<open>*node\<close> at the call.
\<close>

definition ll_select_n_min_1 ::
  "world \<Rightarrow> addr \<Rightarrow> int \<Rightarrow> locktype_t \<Rightarrow> fault + world \<times> addr \<times> int" where
  "ll_select_n_min_1 w node n lt =
     (if n < 0 then Inr (w, node, - 1)
      else if n = 0 then Inr (w, node, 0)
      else
        (let w1 = emit [Lock ListLock lt] w in
         if valid_flag (lst w1) \<noteq> VALID then Inr (emit [Unlock ListLock] w1, node, - 1)
         else if hd_node (lst w1) = NULL then
           (if len (lst w1) \<noteq> 0 then Inl AssertFailed
            else Inr (emit [Unlock ListLock] w1, NULL, - 1))
         else select_loop (emit [Lock (NodeLock (hd_node (lst w1))) lt] w1)
                (hd_node (lst w1)) n lt))"


section \<open>Insertion\<close>

text \<open>The common end of \<^verbatim>\<open>ll_insert_n\<close>: count, unlock, return the length.\<close>

definition insert_finish :: "world \<Rightarrow> world \<times> int" where
  "insert_finish w =
     (let w1 = emit [Unlock ListLock] (set_len (c_int (len (lst w) + 1)) w)
      in (w1, len (lst w1)))"

text \<open>
  \<^verbatim>\<open>nth_node\<close> is not initialised in the source; the selection assigns it before it is
  read, or fails. The model starts it at null.
\<close>

definition ll_insert_n :: "addr \<Rightarrow> world \<Rightarrow> ptr \<Rightarrow> int \<Rightarrow> fault + world \<times> int" where
  "ll_insert_n p w v n =
     (case ll_new_node p v w of
        Inl e \<Rightarrow> Inl e
      | Inr (w0, new_node) \<Rightarrow>
          if n = 0 then
            (let w1 = emit [Lock ListLock l_write] w0 in
             if valid_flag (lst w1) \<noteq> VALID then Inr (emit [Unlock ListLock] w1, - 1)
             else
               (case set_nxt w1 new_node (hd_node (lst w1)) of
                  Inl e \<Rightarrow> Inl e
                | Inr w2 \<Rightarrow> Inr (insert_finish (set_hd new_node w2))))
          else
            (case ll_select_n_min_1 w0 NULL n l_write of
               Inl e \<Rightarrow> Inl e
             | Inr (w1, nth_node, r) \<Rightarrow>
                 if r \<noteq> 0 then Inr (free_node new_node w1, - 1)
                 else
                   (case node_at w1 nth_node of
                      Inl e \<Rightarrow> Inl e
                    | Inr nd \<Rightarrow>
                        (case set_nxt w1 new_node (nxt nd) of
                           Inl e \<Rightarrow> Inl e
                         | Inr w2 \<Rightarrow>
                             (case set_nxt w2 nth_node new_node of
                                Inl e \<Rightarrow> Inl e
                              | Inr w3 \<Rightarrow>
                                  Inr (insert_finish
                                         (emit [Unlock (NodeLock nth_node)] w3)))))))"

definition ll_insert_first :: "addr \<Rightarrow> world \<Rightarrow> ptr \<Rightarrow> fault + world \<times> int" where
  "ll_insert_first p w v = ll_insert_n p w v 0"

definition ll_insert_last :: "addr \<Rightarrow> world \<Rightarrow> ptr \<Rightarrow> fault + world \<times> int" where
  "ll_insert_last p w v = ll_insert_n p w v (len (lst w))"


section \<open>Removal by index\<close>

text \<open>
  The common end of \<^verbatim>\<open>ll_remove_n\<close>, from \<^verbatim>\<open>(list->len)--\<close> on, for the unlinked
  node \<open>tmp\<close>.
\<close>

definition remove_finish :: "world \<Rightarrow> addr \<Rightarrow> fault + world \<times> int" where
  "remove_finish w tmp =
     (let w1 = set_len (c_int (len (lst w) - 1)) w in
      case node_at w1 tmp of
        Inl e \<Rightarrow> Inl e
      | Inr tnd \<Rightarrow>
          if val_teardown (lst w1) = NULL then Inl NullCall
          else
            (let w2 = free_node tmp
                        (emit [Call (val_teardown (lst w1)) (val tnd), Unlock ListLock,
                               LockDestroy (NodeLock tmp)] w1)
             in Inr (w2, len (lst w2))))"

definition ll_remove_n :: "world \<Rightarrow> int \<Rightarrow> fault + world \<times> int" where
  "ll_remove_n w n =
     (if n = 0 then
        (let w1 = emit [Lock ListLock l_write] w in
         if valid_flag (lst w1) \<noteq> VALID then Inr (emit [Unlock ListLock] w1, - 1)
         else
           (let tmp = hd_node (lst w1) in
            case node_at w1 tmp of
              Inl e \<Rightarrow> Inl e
            | Inr tnd \<Rightarrow> remove_finish (set_hd (nxt tnd) w1) tmp))
      else
        (case ll_select_n_min_1 w NULL n l_write of
           Inl e \<Rightarrow> Inl e
         | Inr (w1, nth_node, r) \<Rightarrow>
             if r \<noteq> 0 then Inr (w1, - 1)
             else
               (case node_at w1 nth_node of
                  Inl e \<Rightarrow> Inl e
                | Inr nd \<Rightarrow>
                    (let tmp = nxt nd in
                     case (if nxt nd = NULL then Inr NULL
                           else map_sum id nxt (node_at w1 (nxt nd))) of
                       Inl e \<Rightarrow> Inl e
                     | Inr q \<Rightarrow>
                         (case set_nxt w1 nth_node q of
                            Inl e \<Rightarrow> Inl e
                          | Inr w2 \<Rightarrow>
                              remove_finish (emit [Unlock (NodeLock nth_node)] w2) tmp)))))"

definition ll_remove_first :: "world \<Rightarrow> fault + world \<times> int" where
  "ll_remove_first w = ll_remove_n w 0"

definition ll_pop_first :: "world \<Rightarrow> fault + world \<times> ptr" where
  "ll_pop_first w =
     (let w1 = emit [Lock ListLock l_write] w in
      if valid_flag (lst w1) \<noteq> VALID then Inr (emit [Unlock ListLock] w1, NULL)
      else
        (let node = hd_node (lst w1) in
         if node \<noteq> NULL then
           (case node_at w1 node of
              Inl e \<Rightarrow> Inl e
            | Inr nd \<Rightarrow>
                Inr (emit [Unlock ListLock]
                       (free_node node
                          (emit [LockDestroy (NodeLock node)]
                             (set_hd (nxt nd) (set_len (c_int (len (lst w1) - 1)) w1)))),
                     val nd))
         else Inr (emit [Unlock ListLock] w1, NULL)))"


section \<open>Lookup by index\<close>

definition ll_get_n :: "world \<Rightarrow> int \<Rightarrow> fault + world \<times> ptr" where
  "ll_get_n w n =
     (case ll_select_n_min_1 w NULL (c_int (n + 1)) l_read of
        Inl e \<Rightarrow> Inl e
      | Inr (w1, node, r) \<Rightarrow>
          if r \<noteq> 0 then Inr (w1, NULL)
          else
            (case node_at w1 node of
               Inl e \<Rightarrow> Inl e
             | Inr nd \<Rightarrow> Inr (emit [Unlock (NodeLock node), Unlock ListLock] w1, val nd)))"

definition ll_get_first :: "world \<Rightarrow> fault + world \<times> ptr" where
  "ll_get_first w = ll_get_n w 0"


section \<open>Removal and lookup by predicate or comparator\<close>

text \<open>
  The scanning loop of \<^verbatim>\<open>ll_remove_search\<close>, \<^verbatim>\<open>ll_find\<close> and \<^verbatim>\<open>ll_remove_find\<close>:
  \<open>go v\<close> is the loop's test on the value of the node (\<^verbatim>\<open>!cond(node->val)\<close>, or
  \<^verbatim>\<open>comparator(node->val, ref_value) != 0\<close>). The result is \<^verbatim>\<open>last\<close> and
  \<^verbatim>\<open>node\<close> at the exit of the loop. The loop does not return on a cycle without a
  matching value.
\<close>

partial_function (option) scan ::
  "world \<Rightarrow> (ptr \<Rightarrow> bool) \<Rightarrow> addr \<Rightarrow> addr \<Rightarrow> (fault + addr \<times> addr) option" where
  "scan w go last_node node =
     (if node = NULL then Some (Inr (last_node, node))
      else
        (case node_at w node of
           Inl e \<Rightarrow> Some (Inl e)
         | Inr nd \<Rightarrow>
             if go (val nd) then scan w go node (nxt nd)
             else Some (Inr (last_node, node))))"

text \<open>
  What both removals do after the scan. When no node was found they return at once, the
  list lock still held. The two sources order the final statements differently; the trace
  and the memory after them are the same.
\<close>

definition remove_found :: "world \<Rightarrow> addr \<Rightarrow> addr \<Rightarrow> fault + world \<times> int" where
  "remove_found w last_node node =
     (if node = NULL then Inr (w, - 1)
      else
        (case node_at w node of
           Inl e \<Rightarrow> Inl e
         | Inr nd \<Rightarrow>
             (case (if node = hd_node (lst w) then Inr (set_hd (nxt nd) w)
                    else map_sum id (emit [Lock (NodeLock last_node) l_write,
                                           Unlock (NodeLock last_node)])
                           (set_nxt w last_node (nxt nd))) of
                Inl e \<Rightarrow> Inl e
              | Inr w1 \<Rightarrow>
                  (case node_at w1 node of
                     Inl e \<Rightarrow> Inl e
                   | Inr nd1 \<Rightarrow>
                       if val_teardown (lst w1) = NULL then Inl NullCall
                       else
                         (let w2 = free_node node
                                     (set_len (c_int (len (lst w1) - 1))
                                        (emit [Call (val_teardown (lst w1)) (val nd1),
                                               LockDestroy (NodeLock node),
                                               Unlock ListLock] w1))
                          in Inr (w2, len (lst w2)))))))"

definition ll_remove_search :: "world \<Rightarrow> (ptr \<Rightarrow> int) \<Rightarrow> (fault + world \<times> int) option" where
  "ll_remove_search w cond =
     (let w1 = emit [Lock ListLock l_write] w in
      if valid_flag (lst w1) \<noteq> VALID then Some (Inr (emit [Unlock ListLock] w1, - 1))
      else
        (case scan w1 (\<lambda>v. cond v = 0) NULL (hd_node (lst w1)) of
           None \<Rightarrow> None
         | Some (Inl e) \<Rightarrow> Some (Inl e)
         | Some (Inr (last_node, node)) \<Rightarrow> Some (remove_found w1 last_node node)))"

definition ll_remove_find ::
  "world \<Rightarrow> (ptr \<Rightarrow> ptr \<Rightarrow> int) \<Rightarrow> ptr \<Rightarrow> (fault + world \<times> int) option" where
  "ll_remove_find w comparator ref_value =
     (let w1 = emit [Lock ListLock l_write] w in
      if valid_flag (lst w1) \<noteq> VALID then Some (Inr (emit [Unlock ListLock] w1, - 1))
      else
        (case scan w1 (\<lambda>v. comparator v ref_value \<noteq> 0) NULL (hd_node (lst w1)) of
           None \<Rightarrow> None
         | Some (Inl e) \<Rightarrow> Some (Inl e)
         | Some (Inr (last_node, node)) \<Rightarrow> Some (remove_found w1 last_node node)))"

definition ll_find ::
  "world \<Rightarrow> (ptr \<Rightarrow> ptr \<Rightarrow> int) \<Rightarrow> ptr \<Rightarrow> (fault + world \<times> ptr) option" where
  "ll_find w comparator ref_value =
     (let w1 = emit [Lock ListLock l_read] w in
      if valid_flag (lst w1) \<noteq> VALID then Some (Inr (emit [Unlock ListLock] w1, NULL))
      else
        (case scan w1 (\<lambda>v. comparator v ref_value \<noteq> 0) NULL (hd_node (lst w1)) of
           None \<Rightarrow> None
         | Some (Inl e) \<Rightarrow> Some (Inl e)
         | Some (Inr (last_node, node)) \<Rightarrow>
             (let w2 = emit [Unlock ListLock] w1 in
              if node = NULL then Some (Inr (w2, NULL))
              else
                (case node_at w2 node of
                   Inl e \<Rightarrow> Some (Inl e)
                 | Inr nd \<Rightarrow> Some (Inr (w2, val nd))))))"


section \<open>Traversal\<close>

partial_function (option) ll_map_internal ::
  "world \<Rightarrow> fptr \<Rightarrow> addr \<Rightarrow> (fault + world) option" where
  "ll_map_internal w f node =
     (if node = NULL then Some (Inr w)
      else
        (case node_at w node of
           Inl e \<Rightarrow> Some (Inl e)
         | Inr nd \<Rightarrow>
             if f = NULL then Some (Inl NullCall)
             else ll_map_internal
                    (emit [Lock (NodeLock node) l_write, Call f (val nd),
                           Unlock (NodeLock node)] w)
                    f (nxt nd)))"

definition ll_map :: "world \<Rightarrow> fptr \<Rightarrow> (fault + world) option" where
  "ll_map w f =
     (let w1 = emit [Lock ListLock l_read] w in
      if valid_flag (lst w1) \<noteq> VALID then Some (Inr (emit [Unlock ListLock] w1))
      else
        (case ll_map_internal w1 f (hd_node (lst w1)) of
           None \<Rightarrow> None
         | Some (Inl e) \<Rightarrow> Some (Inl e)
         | Some (Inr w2) \<Rightarrow> Some (Inr (emit [Unlock ListLock] w2))))"

text \<open>
  \<^verbatim>\<open>ll_print\<close> takes the list structure by value: it locks the lock of its own copy and
  cannot change the caller's structure.
\<close>

definition ll_print :: "world \<Rightarrow> (fault + world) option" where
  "ll_print w =
     (let w1 = emit [Lock CopyLock l_read] w in
      if valid_flag (lst w1) \<noteq> VALID then Some (Inr (emit [Unlock CopyLock] w1))
      else if val_printer (lst w1) \<noteq> NULL then
        (case ll_map_internal (emit [PrintOpen] w1) (val_printer (lst w1))
                (hd_node (lst w1)) of
           None \<Rightarrow> None
         | Some (Inl e) \<Rightarrow> Some (Inl e)
         | Some (Inr w2) \<Rightarrow>
             Some (Inr (emit [PrintClose (len (lst w1)), Unlock CopyLock] w2)))
      else Some (Inr (emit [Unlock CopyLock] w1)))"


section \<open>The structural invariant\<close>

text \<open>
  \<open>walk h p k\<close> follows \<^verbatim>\<open>nxt\<close> from \<open>p\<close> and returns the nodes met when null is
  reached after exactly \<open>k\<close> nodes.
\<close>

fun walk :: "(addr \<Rightarrow> ll_node option) \<Rightarrow> addr \<Rightarrow> nat \<Rightarrow> addr list option" where
  "walk h p 0 = (if p = NULL then Some [] else None)"
| "walk h p (Suc k) =
     (if p = NULL then None
      else case h p of
             None \<Rightarrow> None
           | Some nd \<Rightarrow> map_option ((#) p) (walk h (nxt nd) k))"

definition nodes :: "world \<Rightarrow> addr list option" where
  "nodes w = walk (heap w) (hd_node (lst w)) (nat (len (lst w)))"

text \<open>
  A valid list: the flag is set, \<^verbatim>\<open>len\<close> is a non-negative \<^verbatim>\<open>int\<close>, and the chain from
  \<^verbatim>\<open>hd\<close> reaches null after exactly \<^verbatim>\<open>len\<close> live nodes, none of them met twice.
\<close>

definition ll_inv :: "world \<Rightarrow> bool" where
  "ll_inv w =
     (valid_flag (lst w) = VALID \<and> 0 \<le> len (lst w) \<and> len (lst w) \<le> INT_MAX \<and>
      (case nodes w of None \<Rightarrow> False | Some as \<Rightarrow> distinct as))"

text \<open>\<^verbatim>\<open>malloc\<close> returns an address that is not null and not the address of a live node.\<close>

definition fresh :: "addr \<Rightarrow> world \<Rightarrow> bool" where
  "fresh p w = (p \<noteq> NULL \<and> heap w p = None)"


section \<open>Definitions for the proofs\<close>

text \<open>
  \<open>path h p as q\<close>: following \<^verbatim>\<open>nxt\<close> from \<open>p\<close> meets exactly the live nodes \<open>as\<close>,
  in order, and then arrives at \<open>q\<close>.
\<close>

fun path :: "(addr \<Rightarrow> ll_node option) \<Rightarrow> addr \<Rightarrow> addr list \<Rightarrow> addr \<Rightarrow> bool" where
  "path h p [] q = (p = q)"
| "path h p (a # as) q =
     (p = a \<and> a \<noteq> NULL \<and> (case h a of None \<Rightarrow> False | Some nd \<Rightarrow> path h (nxt nd) as q))"

text \<open>\<open>rep w as\<close>: the list of \<open>w\<close> is valid and its nodes are \<open>as\<close>.\<close>

definition rep :: "world \<Rightarrow> addr list \<Rightarrow> bool" where
  "rep w as =
     (valid_flag (lst w) = VALID \<and> path (heap w) (hd_node (lst w)) as NULL \<and>
      len (lst w) = int (length as) \<and> len (lst w) \<le> INT_MAX)"

text \<open>The value pointer stored in node \<open>a\<close>.\<close>

definition val_of :: "(addr \<Rightarrow> ll_node option) \<Rightarrow> addr \<Rightarrow> ptr" where
  "val_of h a = (case h a of None \<Rightarrow> NULL | Some nd \<Rightarrow> val nd)"

text \<open>
  The shape that \<^verbatim>\<open>ll_remove_search\<close> and \<^verbatim>\<open>ll_remove_find\<close> share, with the test of
  the scanning loop as a parameter.
\<close>

definition remove_scan :: "world \<Rightarrow> (ptr \<Rightarrow> bool) \<Rightarrow> (fault + world \<times> int) option" where
  "remove_scan w go =
     (let w1 = emit [Lock ListLock l_write] w in
      if valid_flag (lst w1) \<noteq> VALID then Some (Inr (emit [Unlock ListLock] w1, - 1))
      else
        (case scan w1 go NULL (hd_node (lst w1)) of
           None \<Rightarrow> None
         | Some (Inl e) \<Rightarrow> Some (Inl e)
         | Some (Inr (last_node, node)) \<Rightarrow> Some (remove_found w1 last_node node)))"


section \<open>Sequences of calls\<close>

text \<open>
  A call of a public operation that leaves the list valid; \<open>Insert p v n\<close> carries the
  address \<open>p\<close> that \<^verbatim>\<open>malloc\<close> returns in this call.
\<close>

datatype call =
    Insert addr ptr int
  | Remove int
  | PopFirst
  | RemoveSearch "ptr \<Rightarrow> int"
  | RemoveFind "ptr \<Rightarrow> ptr \<Rightarrow> int" ptr
  | Get int
  | Find "ptr \<Rightarrow> ptr \<Rightarrow> int" ptr
  | Map fptr
  | Length
  | Print

fun run_call :: "call \<Rightarrow> world \<Rightarrow> (fault + world) option" where
  "run_call (Insert p v n) w = Some (map_sum id fst (ll_insert_n p w v n))"
| "run_call (Remove n) w = Some (map_sum id fst (ll_remove_n w n))"
| "run_call PopFirst w = Some (map_sum id fst (ll_pop_first w))"
| "run_call (RemoveSearch cond) w = map_option (map_sum id fst) (ll_remove_search w cond)"
| "run_call (RemoveFind comparator ref_value) w =
     map_option (map_sum id fst) (ll_remove_find w comparator ref_value)"
| "run_call (Get n) w = Some (map_sum id fst (ll_get_n w n))"
| "run_call (Find comparator ref_value) w =
     map_option (map_sum id fst) (ll_find w comparator ref_value)"
| "run_call (Map f) w = ll_map w f"
| "run_call Length w = Some (Inr (fst (ll_length w)))"
| "run_call Print w = ll_print w"

fun run :: "call list \<Rightarrow> world \<Rightarrow> (fault + world) option" where
  "run [] w = Some (Inr w)"
| "run (c # cs) w =
     (case run_call c w of
        None \<Rightarrow> None
      | Some (Inl e) \<Rightarrow> Some (Inl e)
      | Some (Inr w') \<Rightarrow> run cs w')"

text \<open>
  What the caller owes for a call: the index range of the interface table, a fresh
  address from \<^verbatim>\<open>malloc\<close>, a length that \<^verbatim>\<open>int\<close> can still count, and callbacks that
  are not null.
\<close>

fun pre :: "call \<Rightarrow> world \<Rightarrow> bool" where
  "pre (Insert p v n) w =
     (fresh p w \<and> 0 \<le> n \<and> n \<le> len (lst w) \<and> len (lst w) < INT_MAX)"
| "pre (Remove n) w = (0 \<le> n \<and> n < len (lst w) \<and> val_teardown (lst w) \<noteq> NULL)"
| "pre PopFirst w = True"
| "pre (RemoveSearch cond) w = (val_teardown (lst w) \<noteq> NULL)"
| "pre (RemoveFind comparator ref_value) w = (val_teardown (lst w) \<noteq> NULL)"
| "pre (Get n) w = (0 \<le> n \<and> n < len (lst w))"
| "pre (Find comparator ref_value) w = True"
| "pre (Map f) w = (f \<noteq> NULL)"
| "pre Length w = True"
| "pre Print w = True"

text \<open>
  Every call of the sequence meets \<open>pre\<close> in the world it is made in (after a call
  that does not return, no further call is made).
\<close>

fun pres :: "call list \<Rightarrow> world \<Rightarrow> bool" where
  "pres [] w = True"
| "pres (c # cs) w =
     (pre c w \<and> (case run_call c w of Some (Inr w') \<Rightarrow> pres cs w' | _ \<Rightarrow> True))"

text \<open>
  What \<^verbatim>\<open>malloc\<close> and the range of \<^verbatim>\<open>int\<close> owe to a call, whatever its arguments are.
\<close>

fun alloc_ok :: "call \<Rightarrow> world \<Rightarrow> bool" where
  "alloc_ok (Insert p v n) w = (fresh p w \<and> len (lst w) < INT_MAX)"
| "alloc_ok c w = True"


section \<open>Concrete lists\<close>

definition two_nodes :: world where
  "two_nodes =
     \<lparr>lst = \<lparr>len = 2, hd_node = 1, val_teardown = 9, val_printer = NULL, valid_flag = VALID\<rparr>,
      heap = (\<lambda>a. None)(1 \<mapsto> \<lparr>val = 10, nxt = 2\<rparr>, 2 \<mapsto> \<lparr>val = 20, nxt = NULL\<rparr>),
      trace = []\<rparr>"

definition cleared_list :: world where
  "cleared_list =
     \<lparr>lst = \<lparr>len = 0, hd_node = NULL, val_teardown = NULL, val_printer = NULL,
              valid_flag = INVALID\<rparr>,
      heap = (\<lambda>a. None),
      trace = [Lock ListLock l_write,
               Lock (NodeLock 1) l_write, Call 9 10, Unlock (NodeLock 1),
               LockDestroy (NodeLock 1),
               Lock (NodeLock 2) l_write, Call 9 20, Unlock (NodeLock 2),
               LockDestroy (NodeLock 2),
               Unlock ListLock, LockDestroy ListLock]\<rparr>"

definition example_calls :: "call list" where
  "example_calls =
     [Insert 1 10 0, Insert 2 20 1, Insert 3 30 2, Get 2, Length, Map 5, Print,
      Find (\<lambda>a b. int a - int b) 20, RemoveSearch (\<lambda>v. if v = 20 then 1 else 0),
      RemoveFind (\<lambda>a b. int a - int b) 30, Remove 0, PopFirst, Insert 1 11 0, PopFirst]"

text \<open>
  A valid list of \<open>k\<close> nodes, at the addresses \<open>1\<close> to \<open>k\<close>, node \<open>a\<close> holding the
  value \<open>a\<close>.
\<close>

definition big :: "nat \<Rightarrow> world" where
  "big k =
     \<lparr>lst = \<lparr>len = int k, hd_node = (if k = 0 then NULL else 1), val_teardown = 9,
              val_printer = NULL, valid_flag = VALID\<rparr>,
      heap = (\<lambda>a. if 1 \<le> a \<and> a \<le> k
                  then Some \<lparr>val = a, nxt = (if a < k then Suc a else NULL)\<rparr>
                  else None),
      trace = []\<rparr>"


section \<open>Memory and chain lemmas\<close>

lemma emit_simps [simp]:
  "lst (emit es w) = lst w" "heap (emit es w) = heap w" "trace (emit es w) = trace w @ es"
  by (simp_all add: emit_def)

lemma emit_emit [simp]: "emit es (emit es' w) = emit (es' @ es) w"
  by (simp add: emit_def)

lemma free_node_simps [simp]:
  "lst (free_node p w) = lst w" "heap (free_node p w) = (heap w)(p := None)"
  "trace (free_node p w) = trace w"
  by (simp_all add: free_node_def)

lemma set_len_simps [simp]:
  "len (lst (set_len k w)) = k" "hd_node (lst (set_len k w)) = hd_node (lst w)"
  "val_teardown (lst (set_len k w)) = val_teardown (lst w)"
  "val_printer (lst (set_len k w)) = val_printer (lst w)"
  "valid_flag (lst (set_len k w)) = valid_flag (lst w)"
  "heap (set_len k w) = heap w" "trace (set_len k w) = trace w"
  by (simp_all add: set_len_def)

lemma set_hd_simps [simp]:
  "len (lst (set_hd p w)) = len (lst w)" "hd_node (lst (set_hd p w)) = p"
  "val_teardown (lst (set_hd p w)) = val_teardown (lst w)"
  "val_printer (lst (set_hd p w)) = val_printer (lst w)"
  "valid_flag (lst (set_hd p w)) = valid_flag (lst w)"
  "heap (set_hd p w) = heap w" "trace (set_hd p w) = trace w"
  by (simp_all add: set_hd_def)

lemma calls_append [simp]: "calls (xs @ ys) = calls xs @ calls ys"
  by (induction xs rule: calls.induct) auto

lemma node_at_cong: "heap w = heap w' \<Longrightarrow> node_at w p = node_at w' p"
  by (simp add: node_at_def)

lemma node_at_simps [simp]:
  "node_at (emit es w) p = node_at w p"
  "node_at (set_len k w) p = node_at w p"
  "node_at (set_hd q w) p = node_at w p"
  by (simp_all add: node_at_def)

lemma path_append: "path h p (xs @ ys) q = (\<exists>r. path h p xs r \<and> path h r ys q)"
  by (induction xs arbitrary: p) (auto split: option.splits)

lemma path_upd: "a \<notin> set as \<Longrightarrow> path (h(a := x)) p as q = path h p as q"
  by (induction as arbitrary: p) (auto split: option.splits)

lemma path_unique: "path h p as NULL \<Longrightarrow> path h p bs NULL \<Longrightarrow> as = bs"
proof (induction as arbitrary: p bs)
  case Nil
  then show ?case by (cases bs) auto
next
  case (Cons a as)
  then show ?case by (cases bs) (auto split: option.splits)
qed

lemma path_distinct: "path h p as NULL \<Longrightarrow> distinct as"
proof (induction as arbitrary: p)
  case Nil
  then show ?case by simp
next
  case (Cons a as)
  from Cons.prems obtain nd where nd: "h a = Some nd" "path h (nxt nd) as NULL" "p = a" "a \<noteq> NULL"
    by (auto split: option.splits)
  have "a \<notin> set as"
  proof
    assume "a \<in> set as"
    then obtain xs ys where as: "as = xs @ a # ys" by (auto simp: in_set_conv_decomp)
    with nd(2) obtain r where "path h r (a # ys) NULL"
      by (auto simp: path_append)
    then have "path h a (a # ys) NULL" by auto
    moreover have "path h a (a # as) NULL" using Cons.prems nd by simp
    ultimately have "a # ys = a # as" by (rule path_unique)
    with as show False by simp
  qed
  with Cons.IH [OF nd(2)] show ?case by simp
qed

lemma walk_path: "(walk h p k = Some as) = (path h p as NULL \<and> length as = k)"
proof (induction k arbitrary: p as)
  case 0
  then show ?case by auto
next
  case (Suc k)
  then show ?case by (cases as) (auto split: option.splits)
qed

lemma ll_inv_rep: "ll_inv w = (\<exists>as. rep w as)"
proof
  assume "ll_inv w"
  then obtain as where "nodes w = Some as" "valid_flag (lst w) = VALID" "0 \<le> len (lst w)"
    "len (lst w) \<le> INT_MAX"
    by (auto simp: ll_inv_def split: option.splits)
  then have "rep w as" by (auto simp: rep_def nodes_def walk_path)
  then show "\<exists>as. rep w as" ..
next
  assume "\<exists>as. rep w as"
  then obtain as where r: "rep w as" ..
  then have "nodes w = Some as" by (simp add: rep_def nodes_def walk_path)
  moreover have "distinct as" using r by (auto simp: rep_def dest: path_distinct)
  ultimately show "ll_inv w" using r by (simp add: ll_inv_def rep_def)
qed

lemma rep_nodes: "rep w as \<Longrightarrow> nodes w = Some as"
  by (simp add: rep_def nodes_def walk_path)

lemma rep_distinct: "rep w as \<Longrightarrow> distinct as"
  by (auto simp: rep_def dest: path_distinct)

lemma path_NULL [simp]: "path h NULL as q = (as = [] \<and> q = NULL)"
  by (cases as) auto

lemma select_loop_path:
  "path (heap w) p as NULL \<Longrightarrow> as \<noteq> [] \<Longrightarrow> 1 \<le> n \<Longrightarrow>
   \<exists>tr. calls tr = [] \<and>
     select_loop w p n lt =
       (if n \<le> int (length as) then Inr (emit tr w, as ! nat (n - 1), 0)
        else Inr (emit tr w, NULL, - 1))"
proof (induction as arbitrary: w p n)
  case Nil
  then show ?case by simp
next
  case (Cons a as)
  from Cons.prems obtain nd where nd: "heap w a = Some nd" "path (heap w) (nxt nd) as NULL"
    "p = a" "a \<noteq> NULL"
    by (auto split: option.splits)
  show ?case
  proof (cases "n > 1")
    case False
    with Cons.prems have "n = 1" by simp
    then have "select_loop w p n lt = Inr (emit [] w, (a # as) ! nat (n - 1), 0)"
      using nd by (simp add: select_loop.simps emit_def)
    then show ?thesis using \<open>n = 1\<close> by (intro exI [of _ "[]"]) simp
  next
    case True
    show ?thesis
    proof (cases "nxt nd = NULL")
      case True
      with nd have "as = []" by simp
      then show ?thesis using \<open>n > 1\<close> nd True
        by (subst select_loop.simps) (auto simp: node_at_def intro!: exI [of _ "[Unlock (NodeLock a), Unlock ListLock]"])
    next
      case False
      with nd have "as \<noteq> []" by auto
      let ?w = "emit [Lock (NodeLock (nxt nd)) lt, Unlock (NodeLock a)] w"
      from Cons.IH [of ?w "nxt nd" "n - 1"] nd \<open>as \<noteq> []\<close> \<open>n > 1\<close>
      obtain tr where tr: "calls tr = []"
        "select_loop ?w (nxt nd) (n - 1) lt =
           (if n - 1 \<le> int (length as) then Inr (emit tr ?w, as ! nat (n - 1 - 1), 0)
            else Inr (emit tr ?w, NULL, - 1))"
        by auto
      have "nat (n - 1) = Suc (nat (n - 1 - 1))" using \<open>n > 1\<close> by simp
      then have nth: "(a # as) ! nat (n - 1) = as ! nat (n - 1 - 1)"
        by (simp only: nth_Cons_Suc)
      have "select_loop w p n lt = select_loop ?w (nxt nd) (n - 1) lt"
        using \<open>n > 1\<close> nd False by (subst select_loop.simps) (simp add: node_at_def)
      with tr nth show ?thesis
        by (intro exI [of _ "[Lock (NodeLock (nxt nd)) lt, Unlock (NodeLock a)] @ tr"]) auto
    qed
  qed
qed

lemma select_rep:
  assumes "rep w as" "1 \<le> n"
  shows "\<exists>tr. calls tr = [] \<and>
     ll_select_n_min_1 w node n lt =
       (if n \<le> len (lst w) then Inr (emit tr w, as ! nat (n - 1), 0)
        else Inr (emit tr w, NULL, - 1))"
proof (cases as)
  case Nil
  with assms show ?thesis
    by (auto simp: rep_def ll_select_n_min_1_def Let_def
        intro!: exI [of _ "[Lock ListLock lt, Unlock ListLock]"])
next
  case (Cons a as')
  with assms have hd: "hd_node (lst w) \<noteq> NULL" by (auto simp: rep_def)
  let ?w = "emit [Lock (NodeLock (hd_node (lst w))) lt] (emit [Lock ListLock lt] w)"
  from assms Cons have "path (heap ?w) (hd_node (lst w)) as NULL" "as \<noteq> []"
    by (auto simp: rep_def)
  from select_loop_path [OF this \<open>1 \<le> n\<close>, of lt] obtain tr where tr: "calls tr = []"
    "select_loop ?w (hd_node (lst w)) n lt =
       (if n \<le> int (length as) then Inr (emit tr ?w, as ! nat (n - 1), 0)
        else Inr (emit tr ?w, NULL, - 1))" by auto
  have "ll_select_n_min_1 w node n lt = select_loop ?w (hd_node (lst w)) n lt"
    using assms hd by (simp add: ll_select_n_min_1_def rep_def Let_def)
  with tr assms show ?thesis
    by (intro exI [of _ "[Lock ListLock lt, Lock (NodeLock (hd_node (lst w))) lt] @ tr"])
       (auto simp: rep_def)
qed

lemma get_neg1: "ll_get_n w (- 1) = Inl NullDeref"
  by (simp add: ll_get_n_def c_int_def ll_select_n_min_1_def node_at_def)


section \<open>What the operations do on a valid list\<close>

lemma path_live: "path h p as q \<Longrightarrow> a \<in> set as \<Longrightarrow> a \<noteq> NULL \<and> h a \<noteq> None"
  by (induction as arbitrary: p) (auto split: option.splits)

lemma c_int_id: "INT_MIN \<le> x \<Longrightarrow> x \<le> INT_MAX \<Longrightarrow> c_int x = x"
  by (simp add: c_int_def INT_MIN_def INT_MAX_def)

lemma path_insert_after:
  assumes "path h p (xs @ a # ys) NULL" "q \<notin> set (xs @ a # ys)" "q \<noteq> NULL" "h a = Some nd"
  shows "path (h(q \<mapsto> \<lparr>val = v, nxt = nxt nd\<rparr>, a \<mapsto> nd\<lparr>nxt := q\<rparr>)) p (xs @ a # q # ys) NULL"
proof -
  let ?h = "h(q \<mapsto> \<lparr>val = v, nxt = nxt nd\<rparr>, a \<mapsto> nd\<lparr>nxt := q\<rparr>)"
  have d: "distinct (xs @ a # ys)" using assms(1) by (rule path_distinct)
  from assms(1) have px: "path h p xs a" and pa: "path h a (a # ys) NULL"
    by (auto simp: path_append)
  from pa assms(4) have an: "a \<noteq> NULL" and py: "path h (nxt nd) ys NULL" by auto
  have "path ?h p xs a" using px d assms(2) by (simp add: path_upd)
  moreover have "path ?h (nxt nd) ys NULL" using py d assms(2) by (simp add: path_upd)
  then have "path ?h a (a # q # ys) NULL" using an assms(2,3) by auto
  ultimately show ?thesis by (auto simp: path_append)
qed

lemma path_remove_after:
  assumes "path h p (xs @ a # b # ys) NULL" "h a = Some nd" "h b = Some nb"
  shows "path (h(a \<mapsto> nd\<lparr>nxt := nxt nb\<rparr>, b := None)) p (xs @ a # ys) NULL"
proof -
  let ?h = "h(a \<mapsto> nd\<lparr>nxt := nxt nb\<rparr>, b := None)"
  have d: "distinct (xs @ a # b # ys)" using assms(1) by (rule path_distinct)
  from assms(1) have px: "path h p xs a" and pa: "path h a (a # b # ys) NULL"
    by (auto simp: path_append)
  from pa assms(2,3) have an: "a \<noteq> NULL" and py: "path h (nxt nb) ys NULL" by auto
  have "path ?h p xs a" using px d by (simp add: path_upd)
  moreover have "path ?h (nxt nb) ys NULL" using py d by (simp add: path_upd)
  then have "path ?h a (a # ys) NULL" using an d by auto
  ultimately show ?thesis by (auto simp: path_append)
qed

lemma insert_wrap:
  assumes r: "rep w as" and f: "fresh p w" and n: "0 \<le> n" "n \<le> len (lst w)"
  shows "\<exists>w'. ll_insert_n p w v n = Inr (w', c_int (len (lst w) + 1)) \<and>
           valid_flag (lst w') = VALID \<and> len (lst w') = c_int (len (lst w) + 1) \<and>
           path (heap w') (hd_node (lst w')) (take (nat n) as @ p # drop (nat n) as) NULL \<and>
           val_of (heap w') p = v \<and> (\<forall>a\<in>set as. val_of (heap w') a = val_of (heap w) a) \<and>
           calls (trace w') = calls (trace w) \<and>
           val_teardown (lst w') = val_teardown (lst w) \<and>
           val_printer (lst w') = val_printer (lst w)"
proof -
  have pn: "p \<noteq> NULL" and hp: "heap w p = None" using f by (auto simp: fresh_def)
  have pas: "p \<notin> set as" using r hp by (auto simp: rep_def dest: path_live)
  have valid: "valid_flag (lst w) = VALID" and pth: "path (heap w) (hd_node (lst w)) as NULL"
    and ln: "len (lst w) = int (length as)" using r by (auto simp: rep_def)
  let ?w0 = "emit [LockInit (NodeLock p)] (w\<lparr>heap := (heap w)(p \<mapsto> \<lparr>val = v, nxt = NULL\<rparr>)\<rparr>)"
  have nn: "ll_new_node p v w = Inr (?w0, p)" using pn by (simp add: ll_new_node_def)
  show ?thesis
  proof (cases "n = 0")
    case True
    let ?h = "(heap w)(p \<mapsto> \<lparr>val = v, nxt = hd_node (lst w)\<rparr>)"
    have "path ?h (hd_node (lst w)) as NULL" using pth pas by (simp add: path_upd)
    then have "path ?h p (p # as) NULL" using pn by simp
    then show ?thesis using True nn valid pas pn
      by (auto simp: ll_insert_n_def Let_def set_nxt_def node_at_def insert_finish_def
          val_of_def)
  next
    case False
    with n have n1: "1 \<le> n" by simp
    have r0: "rep ?w0 as" using r pas by (simp add: rep_def path_upd)
    from select_rep [OF r0 n1, of NULL l_write] n obtain tr where tr: "calls tr = []"
      "ll_select_n_min_1 ?w0 NULL n l_write = Inr (emit tr ?w0, as ! nat (n - 1), 0)"
      by auto
    let ?a = "as ! nat (n - 1)"
    have lt: "nat (n - 1) < length as" using n1 n ln by simp
    have spl: "as = take (nat (n - 1)) as @ ?a # drop (nat n) as"
      using id_take_nth_drop [OF lt] n1 by (simp add: Suc_nat_eq_nat_zadd1)
    have ain: "?a \<in> set as" using lt by simp
    then obtain nd where nd: "heap w ?a = Some nd" and an: "?a \<noteq> NULL"
      using path_live [OF pth ain] by auto
    have ap: "?a \<noteq> p" using ain pas by auto
    let ?h = "(heap w)(p \<mapsto> \<lparr>val = v, nxt = nxt nd\<rparr>, ?a \<mapsto> nd\<lparr>nxt := p\<rparr>)"
    have "path (heap w) (hd_node (lst w)) (take (nat (n - 1)) as @ ?a # drop (nat n) as) NULL"
      using pth spl by simp
    from path_insert_after [OF this _ pn nd, of v] pas spl
    have "path ?h (hd_node (lst w)) (take (nat (n - 1)) as @ ?a # p # drop (nat n) as) NULL"
      by (metis)
    moreover have "take (nat n) as = take (nat (n - 1)) as @ [?a]"
      using take_Suc_conv_app_nth [OF lt] n1 by (simp add: Suc_nat_eq_nat_zadd1)
    ultimately have ph: "path ?h (hd_node (lst w)) (take (nat n) as @ p # drop (nat n) as) NULL"
      by simp
    show ?thesis using False nn tr nd an ap pn valid ph pas
      by (auto simp: ll_insert_n_def Let_def set_nxt_def node_at_def insert_finish_def
          val_of_def simp del: length_append)
  qed
qed

lemma c_int_succ_not_minus_one: "0 \<le> x \<Longrightarrow> x \<le> INT_MAX \<Longrightarrow> c_int (x + 1) \<noteq> - 1"
  by (cases "x = INT_MAX") (auto simp: c_int_def INT_MAX_def)

lemma insert_rep:
  assumes r: "rep w as" and f: "fresh p w" and n: "0 \<le> n" "n \<le> len (lst w)"
    and b: "len (lst w) < INT_MAX"
  shows "\<exists>w'. ll_insert_n p w v n = Inr (w', len (lst w) + 1) \<and>
           rep w' (take (nat n) as @ p # drop (nat n) as) \<and>
           val_of (heap w') p = v \<and> (\<forall>a\<in>set as. val_of (heap w') a = val_of (heap w) a) \<and>
           calls (trace w') = calls (trace w) \<and>
           val_teardown (lst w') = val_teardown (lst w) \<and>
           val_printer (lst w') = val_printer (lst w)"
proof -
  have ln: "len (lst w) = int (length as)" using r by (simp add: rep_def)
  have ci: "c_int (len (lst w) + 1) = len (lst w) + 1"
    using b ln by (intro c_int_id) (auto simp: INT_MIN_def INT_MAX_def)
  have lenas: "int (length (take (nat n) as @ p # drop (nat n) as)) = len (lst w) + 1"
    using n ln by simp
  from insert_wrap [OF r f n, of v] obtain w' where w':
    "ll_insert_n p w v n = Inr (w', c_int (len (lst w) + 1))"
    "valid_flag (lst w') = VALID" "len (lst w') = c_int (len (lst w) + 1)"
    "path (heap w') (hd_node (lst w')) (take (nat n) as @ p # drop (nat n) as) NULL"
    "val_of (heap w') p = v" "\<forall>a\<in>set as. val_of (heap w') a = val_of (heap w) a"
    "calls (trace w') = calls (trace w)" "val_teardown (lst w') = val_teardown (lst w)"
    "val_printer (lst w') = val_printer (lst w)"
    by blast
  have "rep w' (take (nat n) as @ p # drop (nat n) as)"
    using w'(2-4) ci lenas b unfolding rep_def by simp
  with w' ci show ?thesis by (intro exI [of _ w']) simp
qed

lemma get_rep:
  assumes r: "rep w as" and n: "0 \<le> n" "n < len (lst w)"
  shows "\<exists>tr. calls tr = [] \<and> ll_get_n w n = Inr (emit tr w, val_of (heap w) (as ! nat n))"
proof -
  have ln: "len (lst w) = int (length as)" and b: "len (lst w) \<le> INT_MAX"
    and pth: "path (heap w) (hd_node (lst w)) as NULL" using r by (auto simp: rep_def)
  have ci: "c_int (n + 1) = n + 1"
    using n b by (intro c_int_id) (auto simp: INT_MIN_def INT_MAX_def)
  from select_rep [OF r, of "n + 1" NULL l_read] n obtain tr where tr: "calls tr = []"
    "ll_select_n_min_1 w NULL (n + 1) l_read = Inr (emit tr w, as ! nat n, 0)"
    by auto
  have "as ! nat n \<in> set as" using n ln by simp
  from path_live [OF pth this] obtain nd where "heap w (as ! nat n) = Some nd" "as ! nat n \<noteq> NULL"
    by auto
  then show ?thesis using tr ci
    by (intro exI [of _ "tr @ [Unlock (NodeLock (as ! nat n)), Unlock ListLock]"])
       (simp add: ll_get_n_def node_at_def val_of_def)
qed

lemma get_beyond:
  assumes r: "rep w as" and n: "len (lst w) \<le> n" "n \<le> INT_MAX"
  shows "\<exists>tr. calls tr = [] \<and> ll_get_n w n = Inr (emit tr w, NULL)"
proof (cases "n = INT_MAX")
  case True
  then have "c_int (n + 1) < 0" by (simp add: c_int_def INT_MAX_def)
  then show ?thesis
    by (intro exI [of _ "[]"]) (simp add: ll_get_n_def ll_select_n_min_1_def emit_def)
next
  case False
  have ln: "0 \<le> len (lst w)" using r by (simp add: rep_def)
  have ci: "c_int (n + 1) = n + 1"
    using n False ln by (intro c_int_id) (auto simp: INT_MIN_def INT_MAX_def)
  from select_rep [OF r, of "n + 1" NULL l_read] n ln obtain tr where tr: "calls tr = []"
    "ll_select_n_min_1 w NULL (n + 1) l_read = Inr (emit tr w, NULL, - 1)"
    by auto
  then show ?thesis using ci by (intro exI [of _ tr]) (simp add: ll_get_n_def)
qed

lemma get_negative:
  assumes "INT_MIN \<le> n" "n < - 1"
  shows "ll_get_n w n = Inr (w, NULL)"
proof -
  have "c_int (n + 1) = n + 1"
    using assms by (intro c_int_id) (auto simp: INT_MIN_def INT_MAX_def)
  then show ?thesis using assms by (simp add: ll_get_n_def ll_select_n_min_1_def)
qed

lemma select_invalid:
  "valid_flag (lst w) \<noteq> VALID \<Longrightarrow> 0 < n \<Longrightarrow>
   ll_select_n_min_1 w node n lt = Inr (emit [Lock ListLock lt, Unlock ListLock] w, node, - 1)"
  by (simp add: ll_select_n_min_1_def Let_def)

lemma remove_rep:
  assumes r: "rep w as" and n: "0 \<le> n" "n < len (lst w)"
    and td: "val_teardown (lst w) \<noteq> NULL"
  shows "\<exists>w'. ll_remove_n w n = Inr (w', len (lst w) - 1) \<and>
           rep w' (take (nat n) as @ drop (Suc (nat n)) as) \<and>
           (\<forall>a\<in>set as. a \<noteq> as ! nat n \<longrightarrow> val_of (heap w') a = val_of (heap w) a) \<and>
           calls (trace w') =
             calls (trace w) @ [(val_teardown (lst w), val_of (heap w) (as ! nat n))] \<and>
           val_teardown (lst w') = val_teardown (lst w) \<and>
           val_printer (lst w') = val_printer (lst w)"
proof -
  have valid: "valid_flag (lst w) = VALID" and pth: "path (heap w) (hd_node (lst w)) as NULL"
    and ln: "len (lst w) = int (length as)" and b: "len (lst w) \<le> INT_MAX"
    using r by (auto simp: rep_def)
  have d: "distinct as" using r by (rule rep_distinct)
  have ci: "c_int (len (lst w) - 1) = len (lst w) - 1"
    using b n by (intro c_int_id) (auto simp: INT_MIN_def INT_MAX_def)
  show ?thesis
  proof (cases "n = 0")
    case True
    with n ln obtain a as' where as: "as = a # as'" by (cases as) auto
    with pth obtain nd where nd: "heap w a = Some nd" "hd_node (lst w) = a" "a \<noteq> NULL"
      "path (heap w) (nxt nd) as' NULL" by (auto split: option.splits)
    have "path ((heap w)(a := None)) (nxt nd) as' NULL" using nd d as by (simp add: path_upd)
    then show ?thesis using True as nd valid td ci ln b
      by (auto simp: ll_remove_n_def Let_def node_at_def remove_finish_def rep_def val_of_def)
  next
    case False
    with n have n1: "1 \<le> n" by simp
    from select_rep [OF r n1, of NULL l_write] n obtain tr where tr: "calls tr = []"
      "ll_select_n_min_1 w NULL n l_write = Inr (emit tr w, as ! nat (n - 1), 0)"
      by auto
    let ?a = "as ! nat (n - 1)" and ?b = "as ! nat n"
    have lt: "nat n < length as" using n ln by simp
    have lt1: "nat (n - 1) < length as" using n ln by simp
    have sn: "Suc (nat (n - 1)) = nat n" using n1 by simp
    have spl: "as = take (nat (n - 1)) as @ ?a # ?b # drop (Suc (nat n)) as"
      using id_take_nth_drop [OF lt1] Cons_nth_drop_Suc [OF lt] sn by simp
    have tk: "take (nat n) as = take (nat (n - 1)) as @ [?a]"
      using take_Suc_conv_app_nth [OF lt1] sn by simp
    have "?a \<in> set as" "?b \<in> set as" using lt lt1 by simp_all
    then obtain nd nb where nd: "heap w ?a = Some nd" "?a \<noteq> NULL"
      and nb: "heap w ?b = Some nb" "?b \<noteq> NULL"
      using path_live [OF pth] by blast
    have ab: "?a \<noteq> ?b" using d lt lt1 n1 by (auto simp: nth_eq_iff_index_eq)
    have pa: "path (heap w) (hd_node (lst w)) (take (nat (n - 1)) as @ ?a # ?b # drop (Suc (nat n)) as) NULL"
      using pth spl by simp
    then have "path (heap w) ?a (?a # ?b # drop (Suc (nat n)) as) NULL"
      by (auto simp: path_append)
    with nd have nx: "nxt nd = ?b" by auto
    let ?h = "(heap w)(?a \<mapsto> nd\<lparr>nxt := nxt nb\<rparr>, ?b := None)"
    from path_remove_after [OF pa nd(1) nb(1)] tk
    have ph: "path ?h (hd_node (lst w)) (take (nat n) as @ drop (Suc (nat n)) as) NULL"
      by simp
    have lenas: "int (length (take (nat n) as @ drop (Suc (nat n)) as)) = len (lst w) - 1"
      using n ln by auto
    show ?thesis using False tr nd nb nx ab valid td ci ph lenas b n
      by (auto simp: ll_remove_n_def Let_def set_nxt_def node_at_def remove_finish_def rep_def
          val_of_def simp del: length_append)
  qed
qed

lemma remove_out_of_range:
  assumes r: "rep w as" and n: "n < 0 \<or> len (lst w) < n"
  shows "\<exists>tr. calls tr = [] \<and> ll_remove_n w n = Inr (emit tr w, - 1)"
proof (cases "n < 0")
  case True
  then show ?thesis
    by (intro exI [of _ "[]"]) (simp add: ll_remove_n_def ll_select_n_min_1_def emit_def)
next
  case False
  with n have n1: "1 \<le> n" "len (lst w) < n" using r by (auto simp: rep_def)
  from select_rep [OF r n1(1), of NULL l_write] n1 obtain tr where tr: "calls tr = []"
    "ll_select_n_min_1 w NULL n l_write = Inr (emit tr w, NULL, - 1)"
    by auto
  then show ?thesis using n1 r by (intro exI [of _ tr]) (auto simp: ll_remove_n_def rep_def)
qed

lemma remove_at_length:
  assumes r: "rep w as" and n: "n = len (lst w)"
  shows "ll_remove_n w n = Inl NullDeref"
proof (cases "n = 0")
  case True
  with n r have "hd_node (lst w) = NULL" "valid_flag (lst w) = VALID" by (auto simp: rep_def)
  then show ?thesis using True by (simp add: ll_remove_n_def Let_def node_at_def)
next
  case False
  with n r have n1: "1 \<le> n" by (cases as) (auto simp: rep_def)
  from select_rep [OF r n1, of NULL l_write] n obtain tr where tr: "calls tr = []"
    "ll_select_n_min_1 w NULL n l_write = Inr (emit tr w, as ! nat (n - 1), 0)"
    by auto
  have ln: "len (lst w) = int (length as)" and pth: "path (heap w) (hd_node (lst w)) as NULL"
    using r by (auto simp: rep_def)
  have lt1: "nat (n - 1) < length as" using n n1 ln by simp
  have "Suc (nat (n - 1)) = length as" using n n1 ln by simp
  with id_take_nth_drop [OF lt1] have spl: "as = take (nat (n - 1)) as @ [as ! nat (n - 1)]"
    by simp
  from pth have "path (heap w) (as ! nat (n - 1)) [as ! nat (n - 1)] NULL"
    by (subst (asm) spl) (auto simp: path_append)
  then obtain nd where "heap w (as ! nat (n - 1)) = Some nd" "nxt nd = NULL" "as ! nat (n - 1) \<noteq> NULL"
    by (auto split: option.splits)
  then show ?thesis using False tr
    by (simp add: ll_remove_n_def Let_def node_at_def set_nxt_def remove_finish_def)
qed

lemma pop_rep_empty:
  assumes "rep w []"
  shows "ll_pop_first w = Inr (emit [Lock ListLock l_write, Unlock ListLock] w, NULL)"
  using assms by (simp add: ll_pop_first_def rep_def Let_def)

lemma pop_invalid:
  assumes "valid_flag (lst w) \<noteq> VALID"
  shows "ll_pop_first w = Inr (emit [Lock ListLock l_write, Unlock ListLock] w, NULL)"
  using assms by (simp add: ll_pop_first_def Let_def)

lemma pop_rep_cons:
  assumes r: "rep w (a # as)"
  shows "\<exists>w'. ll_pop_first w = Inr (w', val_of (heap w) a) \<and> rep w' as \<and>
           len (lst w') = len (lst w) - 1 \<and>
           (\<forall>b\<in>set as. val_of (heap w') b = val_of (heap w) b) \<and>
           calls (trace w') = calls (trace w) \<and>
           val_teardown (lst w') = val_teardown (lst w) \<and>
           val_printer (lst w') = val_printer (lst w)"
proof -
  have valid: "valid_flag (lst w) = VALID" and pth: "path (heap w) (hd_node (lst w)) (a # as) NULL"
    and ln: "len (lst w) = int (length (a # as))" and b: "len (lst w) \<le> INT_MAX"
    using r by (auto simp: rep_def)
  have d: "distinct (a # as)" using r by (rule rep_distinct)
  have ci: "c_int (len (lst w) - 1) = len (lst w) - 1"
    using b ln by (intro c_int_id) (auto simp: INT_MIN_def INT_MAX_def)
  from pth obtain nd where nd: "heap w a = Some nd" "hd_node (lst w) = a" "a \<noteq> NULL"
      "path (heap w) (nxt nd) as NULL" by (auto split: option.splits)
  have "path ((heap w)(a := None)) (nxt nd) as NULL" using nd d by (simp add: path_upd)
  then show ?thesis using nd valid ci ln b d
    by (auto simp: ll_pop_first_def Let_def node_at_def rep_def val_of_def)
qed

lemma scan_none:
  assumes "path (heap w) p as q" "q = NULL" "\<forall>a\<in>set as. go (val_of (heap w) a)"
  shows "scan w go l p = Some (Inr (if as = [] then l else last as, NULL))"
  using assms
proof (induction as arbitrary: p l)
  case Nil
  then show ?case by (subst scan.simps) simp
next
  case (Cons a as)
  from Cons.prems obtain nd where nd: "heap w a = Some nd" "p = a" "a \<noteq> NULL"
      "path (heap w) (nxt nd) as q" "go (val nd)"
    by (auto simp: val_of_def split: option.splits)
  have "scan w go l p = scan w go a (nxt nd)"
    using nd by (subst scan.simps) (simp add: node_at_def)
  also have "\<dots> = Some (Inr (if as = [] then a else last as, NULL))"
    using Cons.prems by (intro Cons.IH [OF nd(4)]) auto
  finally show ?case by simp
qed

lemma scan_found:
  assumes "path (heap w) p (xs @ b # ys) q" "\<forall>a\<in>set xs. go (val_of (heap w) a)"
    "\<not> go (val_of (heap w) b)"
  shows "scan w go l p = Some (Inr (if xs = [] then l else last xs, b))"
  using assms
proof (induction xs arbitrary: p l)
  case Nil
  then show ?case
    by (subst scan.simps) (auto simp: node_at_def val_of_def split: option.splits)
next
  case (Cons a xs)
  from Cons.prems obtain nd where nd: "heap w a = Some nd" "p = a" "a \<noteq> NULL"
      "path (heap w) (nxt nd) (xs @ b # ys) q" "go (val nd)"
    by (auto simp: val_of_def split: option.splits)
  have "scan w go l p = scan w go a (nxt nd)"
    using nd by (subst scan.simps) (simp add: node_at_def)
  also have "\<dots> = Some (Inr (if xs = [] then a else last xs, b))"
    using Cons.prems by (intro Cons.IH [OF nd(4)]) auto
  finally show ?case by simp
qed


lemma rep_emit [simp]: "rep (emit es w) as = rep w as"
  by (simp add: rep_def)

lemma remove_found_rep:
  assumes r: "rep w (xs @ b # ys)" and td: "val_teardown (lst w) \<noteq> NULL"
  shows "\<exists>w'. remove_found w (if xs = [] then l else last xs) b = Inr (w', len (lst w) - 1) \<and>
           rep w' (xs @ ys) \<and>
           (\<forall>a\<in>set (xs @ ys). val_of (heap w') a = val_of (heap w) a) \<and>
           calls (trace w') = calls (trace w) @ [(val_teardown (lst w), val_of (heap w) b)] \<and>
           val_teardown (lst w') = val_teardown (lst w) \<and>
           val_printer (lst w') = val_printer (lst w)"
proof -
  have valid: "valid_flag (lst w) = VALID"
    and pth: "path (heap w) (hd_node (lst w)) (xs @ b # ys) NULL"
    and ln: "len (lst w) = int (length (xs @ b # ys))" and bd: "len (lst w) \<le> INT_MAX"
    using r by (auto simp: rep_def)
  have d: "distinct (xs @ b # ys)" using r by (rule rep_distinct)
  have ci: "c_int (len (lst w) - 1) = len (lst w) - 1"
    using bd ln by (intro c_int_id) (auto simp: INT_MIN_def INT_MAX_def)
  from path_live [OF pth, of b] obtain nb where nb: "heap w b = Some nb" "b \<noteq> NULL" by auto
  show ?thesis
  proof (cases xs)
    case Nil
    with pth nb have hd: "hd_node (lst w) = b" and py: "path (heap w) (nxt nb) ys NULL"
      by auto
    have "path ((heap w)(b := None)) (nxt nb) ys NULL" using py d by (simp add: path_upd)
    then show ?thesis using Nil hd nb valid td ci ln bd d
      by (auto simp: remove_found_def Let_def node_at_def rep_def val_of_def)
  next
    case (Cons x xs')
    then obtain zs a where xs: "xs = zs @ [a]" by (metis list.distinct(1) rev_exhaust)
    have hdx: "hd_node (lst w) = x" using pth Cons by (auto split: option.splits)
    have "x \<in> set xs" using Cons by simp
    then have hb: "hd_node (lst w) \<noteq> b" using d hdx by auto
    have pa: "path (heap w) (hd_node (lst w)) (zs @ a # b # ys) NULL" using pth xs by simp
    from path_live [OF pa, of a] obtain nd where nd: "heap w a = Some nd" "a \<noteq> NULL" by auto
    have ab: "a \<noteq> b" using d xs by auto
    let ?h = "(heap w)(a \<mapsto> nd\<lparr>nxt := nxt nb\<rparr>, b := None)"
    from path_remove_after [OF pa nd(1) nb(1)]
    have ph: "path ?h (hd_node (lst w)) (xs @ ys) NULL" using xs by simp
    have lenas: "int (length (xs @ ys)) = len (lst w) - 1" using ln by simp
    have la: "(if xs = [] then l else last xs) = a" using xs by simp
    show ?thesis unfolding la using hb nd nb ab valid td ci ph lenas bd d xs
      by (auto simp: remove_found_def Let_def set_nxt_def node_at_def rep_def val_of_def
          simp del: length_append)
  qed
qed

lemma clear_loop_path:
  assumes "path (heap w) p as NULL" "val_teardown (lst w) \<noteq> NULL"
    "int (length as) \<le> len (lst w)" "len (lst w) \<le> INT_MAX"
  shows "\<exists>w'. clear_loop w p = Some (Inr w') \<and>
           lst w' = (lst w)\<lparr>len := len (lst w) - int (length as)\<rparr> \<and>
           heap w' = (\<lambda>a. if a \<in> set as then None else heap w a) \<and>
           calls (trace w') =
             calls (trace w) @ map (\<lambda>a. (val_teardown (lst w), val_of (heap w) a)) as"
  using assms
proof (induction as arbitrary: w p)
  case Nil
  then show ?case by (subst clear_loop.simps) simp
next
  case (Cons a as)
  from Cons.prems(1) obtain nd where nd: "heap w a = Some nd" "p = a" "a \<noteq> NULL"
      "path (heap w) (nxt nd) as NULL" by (auto split: option.splits)
  have d: "a \<notin> set as" using path_distinct [OF Cons.prems(1)] by simp
  have ci: "c_int (len (lst w) - 1) = len (lst w) - 1"
    using Cons.prems(3,4) by (intro c_int_id) (auto simp: INT_MIN_def INT_MAX_def)
  let ?w = "set_len (c_int (len (lst w) - 1))
              (free_node a
                (emit [Lock (NodeLock a) l_write, Call (val_teardown (lst w)) (val nd),
                       Unlock (NodeLock a), LockDestroy (NodeLock a)] w))"
  have step: "clear_loop w p = clear_loop ?w (nxt nd)"
    using nd Cons.prems(2) by (subst clear_loop.simps) (simp add: node_at_def)
  have p1: "path (heap ?w) (nxt nd) as NULL" using nd d by (simp add: path_upd)
  have p2: "val_teardown (lst ?w) \<noteq> NULL" using Cons.prems(2) by simp
  have p3: "int (length as) \<le> len (lst ?w)" using Cons.prems(3) ci by simp
  have p4: "len (lst ?w) \<le> INT_MAX" using Cons.prems(4) ci by simp
  from Cons.IH [OF p1 p2 p3 p4] obtain w' where w':
    "clear_loop ?w (nxt nd) = Some (Inr w')"
    "lst w' = (lst ?w)\<lparr>len := len (lst ?w) - int (length as)\<rparr>"
    "heap w' = (\<lambda>b. if b \<in> set as then None else heap ?w b)"
    "calls (trace w') =
       calls (trace ?w) @ map (\<lambda>b. (val_teardown (lst ?w), val_of (heap ?w) b)) as"
    by blast
  have vo: "map (\<lambda>b. (val_teardown (lst w), val_of ((heap w)(a := None)) b)) as =
            map (\<lambda>b. (val_teardown (lst w), val_of (heap w) b)) as"
    using d by (auto simp: val_of_def)
  show ?case
  proof (intro exI [of _ w'] conjI)
    show "clear_loop w p = Some (Inr w')" using step w'(1) by simp
    show "lst w' = (lst w)\<lparr>len := len (lst w) - int (length (a # as))\<rparr>"
      using w'(2) ci by (simp add: set_len_def)
    show "heap w' = (\<lambda>b. if b \<in> set (a # as) then None else heap w b)"
      using w'(3) by auto
    show "calls (trace w') =
            calls (trace w) @ map (\<lambda>b. (val_teardown (lst w), val_of (heap w) b)) (a # as)"
      using w'(4) nd vo by (simp add: val_of_def)
  qed
qed

lemma map_internal_path:
  assumes "path (heap w) p as NULL" "f \<noteq> NULL"
  shows "\<exists>tr. ll_map_internal w f p = Some (Inr (emit tr w)) \<and>
           calls tr = map (\<lambda>a. (f, val_of (heap w) a)) as"
  using assms
proof (induction as arbitrary: w p)
  case Nil
  then show ?case
    by (subst ll_map_internal.simps) (auto simp: emit_def intro!: exI [of _ "[]"])
next
  case (Cons a as)
  from Cons.prems(1) obtain nd where nd: "heap w a = Some nd" "p = a" "a \<noteq> NULL"
      "path (heap w) (nxt nd) as NULL" by (auto split: option.splits)
  let ?es = "[Lock (NodeLock a) l_write, Call f (val nd), Unlock (NodeLock a)]"
  have step: "ll_map_internal w f p = ll_map_internal (emit ?es w) f (nxt nd)"
    using nd Cons.prems(2) by (subst ll_map_internal.simps) (simp add: node_at_def)
  have "path (heap (emit ?es w)) (nxt nd) as NULL" using nd by simp
  from Cons.IH [OF this Cons.prems(2)] obtain tr where tr:
    "ll_map_internal (emit ?es w) f (nxt nd) = Some (Inr (emit tr (emit ?es w)))"
    "calls tr = map (\<lambda>a. (f, val_of (heap w) a)) as" by auto
  show ?case using step tr nd
    by (intro exI [of _ "?es @ tr"]) (simp add: val_of_def)
qed

lemma remove_search_scan: "ll_remove_search w cond = remove_scan w (\<lambda>v. cond v = 0)"
  by (simp add: ll_remove_search_def remove_scan_def)

lemma remove_find_scan:
  "ll_remove_find w comparator ref_value = remove_scan w (\<lambda>v. comparator v ref_value \<noteq> 0)"
  by (simp add: ll_remove_find_def remove_scan_def)

lemma remove_scan_invalid:
  "valid_flag (lst w) \<noteq> VALID \<Longrightarrow>
   remove_scan w go = Some (Inr (emit [Lock ListLock l_write, Unlock ListLock] w, - 1))"
  by (simp add: remove_scan_def Let_def)

lemma remove_scan_none:
  assumes r: "rep w as" and g: "\<forall>a\<in>set as. go (val_of (heap w) a)"
  shows "remove_scan w go = Some (Inr (emit [Lock ListLock l_write] w, - 1))"
proof -
  let ?w = "emit [Lock ListLock l_write] w"
  have "path (heap ?w) (hd_node (lst ?w)) as NULL" using r by (simp add: rep_def)
  from scan_none [OF this refl, of go NULL] g
  have "scan ?w go NULL (hd_node (lst ?w)) = Some (Inr (if as = [] then NULL else last as, NULL))"
    by simp
  then show ?thesis using r by (simp add: remove_scan_def Let_def rep_def remove_found_def)
qed

lemma remove_scan_found:
  assumes r: "rep w (xs @ b # ys)" and g: "\<forall>a\<in>set xs. go (val_of (heap w) a)"
    and b: "\<not> go (val_of (heap w) b)" and td: "val_teardown (lst w) \<noteq> NULL"
  shows "\<exists>w'. remove_scan w go = Some (Inr (w', len (lst w) - 1)) \<and>
           rep w' (xs @ ys) \<and>
           (\<forall>a\<in>set (xs @ ys). val_of (heap w') a = val_of (heap w) a) \<and>
           calls (trace w') = calls (trace w) @ [(val_teardown (lst w), val_of (heap w) b)] \<and>
           val_teardown (lst w') = val_teardown (lst w) \<and>
           val_printer (lst w') = val_printer (lst w)"
proof -
  let ?w = "emit [Lock ListLock l_write] w"
  have r': "rep ?w (xs @ b # ys)" using r by simp
  then have "path (heap ?w) (hd_node (lst ?w)) (xs @ b # ys) NULL" by (simp add: rep_def)
  from scan_found [OF this, of go NULL] g b
  have sc: "scan ?w go NULL (hd_node (lst ?w)) = Some (Inr (if xs = [] then NULL else last xs, b))"
    by simp
  from remove_found_rep [OF r', of NULL] td obtain w' where
    "remove_found ?w (if xs = [] then NULL else last xs) b = Inr (w', len (lst ?w) - 1)"
    "rep w' (xs @ ys)"
    "\<forall>a\<in>set (xs @ ys). val_of (heap w') a = val_of (heap ?w) a"
    "calls (trace w') = calls (trace ?w) @ [(val_teardown (lst ?w), val_of (heap ?w) b)]"
    "val_teardown (lst w') = val_teardown (lst ?w)"
    "val_printer (lst w') = val_printer (lst ?w)"
    by auto
  then show ?thesis using sc r
    by (intro exI [of _ w']) (simp add: remove_scan_def Let_def rep_def)
qed

lemma first_stop:
  assumes "\<not> (\<forall>a\<in>set as. P a)"
  shows "\<exists>xs b ys. as = xs @ b # ys \<and> (\<forall>a\<in>set xs. P a) \<and> \<not> P b"
proof -
  from assms have "\<exists>a\<in>set as. \<not> P a" by simp
  from split_list_first_prop [OF this] show ?thesis by auto
qed

lemma find_invalid:
  "valid_flag (lst w) \<noteq> VALID \<Longrightarrow>
   ll_find w comparator ref_value =
     Some (Inr (emit [Lock ListLock l_read, Unlock ListLock] w, NULL))"
  by (simp add: ll_find_def Let_def)

lemma find_none:
  assumes r: "rep w as" and g: "\<forall>a\<in>set as. comparator (val_of (heap w) a) ref_value \<noteq> 0"
  shows "ll_find w comparator ref_value =
           Some (Inr (emit [Lock ListLock l_read, Unlock ListLock] w, NULL))"
proof -
  let ?w = "emit [Lock ListLock l_read] w"
  have "path (heap ?w) (hd_node (lst ?w)) as NULL" using r by (simp add: rep_def)
  from scan_none [OF this refl, of "\<lambda>v. comparator v ref_value \<noteq> 0" NULL] g
  have "scan ?w (\<lambda>v. comparator v ref_value \<noteq> 0) NULL (hd_node (lst ?w)) =
          Some (Inr (if as = [] then NULL else last as, NULL))"
    by simp
  then show ?thesis using r by (simp add: ll_find_def Let_def rep_def)
qed

lemma find_found:
  assumes r: "rep w (xs @ b # ys)"
    and g: "\<forall>a\<in>set xs. comparator (val_of (heap w) a) ref_value \<noteq> 0"
    and b: "comparator (val_of (heap w) b) ref_value = 0"
  shows "ll_find w comparator ref_value =
           Some (Inr (emit [Lock ListLock l_read, Unlock ListLock] w, val_of (heap w) b))"
proof -
  let ?w = "emit [Lock ListLock l_read] w"
  have pth: "path (heap ?w) (hd_node (lst ?w)) (xs @ b # ys) NULL" using r by (simp add: rep_def)
  from scan_found [OF this, of "\<lambda>v. comparator v ref_value \<noteq> 0" NULL] g b
  have sc: "scan ?w (\<lambda>v. comparator v ref_value \<noteq> 0) NULL (hd_node (lst ?w)) =
          Some (Inr (if xs = [] then NULL else last xs, b))"
    by simp
  from path_live [OF pth, of b] obtain nb where "heap w b = Some nb" "b \<noteq> NULL" by auto
  then show ?thesis using sc r
    by (simp add: ll_find_def Let_def rep_def node_at_def val_of_def)
qed

lemma map_invalid:
  "valid_flag (lst w) \<noteq> VALID \<Longrightarrow>
   ll_map w f = Some (Inr (emit [Lock ListLock l_read, Unlock ListLock] w))"
  by (simp add: ll_map_def Let_def)

lemma map_rep:
  assumes r: "rep w as" and f: "f \<noteq> NULL"
  shows "\<exists>tr. ll_map w f = Some (Inr (emit tr w)) \<and>
           calls tr = map (\<lambda>a. (f, val_of (heap w) a)) as"
proof -
  let ?w = "emit [Lock ListLock l_read] w"
  have "path (heap ?w) (hd_node (lst ?w)) as NULL" using r by (simp add: rep_def)
  from map_internal_path [OF this f] obtain tr where
    "ll_map_internal ?w f (hd_node (lst ?w)) = Some (Inr (emit tr ?w))"
    "calls tr = map (\<lambda>a. (f, val_of (heap w) a)) as" by auto
  then show ?thesis using r
    by (intro exI [of _ "[Lock ListLock l_read] @ tr @ [Unlock ListLock]"])
       (simp add: ll_map_def Let_def rep_def)
qed

lemma print_invalid:
  "valid_flag (lst w) \<noteq> VALID \<Longrightarrow>
   ll_print w = Some (Inr (emit [Lock CopyLock l_read, Unlock CopyLock] w))"
  by (simp add: ll_print_def Let_def)

lemma print_rep:
  assumes r: "rep w as"
  shows "\<exists>tr. ll_print w = Some (Inr (emit tr w))"
proof (cases "val_printer (lst w) = NULL")
  case True
  then show ?thesis using r
    by (intro exI [of _ "[Lock CopyLock l_read, Unlock CopyLock]"])
       (simp add: ll_print_def Let_def rep_def)
next
  case False
  let ?w = "emit [PrintOpen] (emit [Lock CopyLock l_read] w)"
  have "path (heap ?w) (hd_node (lst w)) as NULL" using r by (simp add: rep_def)
  from map_internal_path [OF this False] obtain tr where
    "ll_map_internal ?w (val_printer (lst w)) (hd_node (lst w)) = Some (Inr (emit tr ?w))"
    by auto
  then show ?thesis using r False
    by (intro exI [of _ "[Lock CopyLock l_read, PrintOpen] @ tr @
                          [PrintClose (len (lst w)), Unlock CopyLock]"])
       (simp add: ll_print_def Let_def rep_def)
qed

lemma clear_invalid:
  "valid_flag (lst w) \<noteq> VALID \<Longrightarrow>
   ll_clear w = Some (Inr (emit [Lock ListLock l_write, Unlock ListLock] w))"
  by (simp add: ll_clear_def Let_def)

lemma clear_rep:
  assumes r: "rep w as" and td: "val_teardown (lst w) \<noteq> NULL"
  shows "\<exists>w'. ll_clear w = Some (Inr w') \<and>
           lst w' = \<lparr>len = 0, hd_node = NULL, val_teardown = NULL, val_printer = NULL,
                     valid_flag = INVALID\<rparr> \<and>
           heap w' = (\<lambda>a. if a \<in> set as then None else heap w a) \<and>
           calls (trace w') =
             calls (trace w) @ map (\<lambda>a. (val_teardown (lst w), val_of (heap w) a)) as"
proof -
  let ?w = "emit [Lock ListLock l_write] w"
  have p: "path (heap ?w) (hd_node (lst ?w)) as NULL" "val_teardown (lst ?w) \<noteq> NULL"
    "int (length as) \<le> len (lst ?w)" "len (lst ?w) \<le> INT_MAX"
    using r td by (simp_all add: rep_def)
  from clear_loop_path [OF p] obtain w2 where w2:
    "clear_loop ?w (hd_node (lst ?w)) = Some (Inr w2)"
    "lst w2 = (lst ?w)\<lparr>len := len (lst ?w) - int (length as)\<rparr>"
    "heap w2 = (\<lambda>a. if a \<in> set as then None else heap ?w a)"
    "calls (trace w2) =
       calls (trace ?w) @ map (\<lambda>a. (val_teardown (lst ?w), val_of (heap ?w) a)) as"
    by blast
  have l0: "len (lst w2) = 0" using w2(2) r by (simp add: rep_def)
  show ?thesis using w2 l0 r
    by (simp add: ll_clear_def Let_def rep_def cong: if_cong)
qed

lemma select_loop_frame:
  "select_loop w node n lt = Inr (w1, q, r) \<Longrightarrow>
   lst w1 = lst w \<and> heap w1 = heap w \<and> calls (trace w1) = calls (trace w)"
proof (induction w node n lt rule: select_loop.induct)
  case (1 w node n lt)
  show ?case
  proof (cases "n > 1")
    case False
    with "1.prems" show ?thesis by (simp add: select_loop.simps)
  next
    case True
    with "1.prems" obtain nd where nd: "node_at w node = Inr nd"
      by (subst (asm) select_loop.simps) (auto split: sum.splits)
    show ?thesis
    proof (cases "nxt nd = NULL")
      case True
      with "1.prems" \<open>n > 1\<close> nd show ?thesis
        by (subst (asm) select_loop.simps) auto
    next
      case False
      with "1.prems" \<open>n > 1\<close> nd have
        "select_loop (emit [Lock (NodeLock (nxt nd)) lt, Unlock (NodeLock node)] w)
           (nxt nd) (n - 1) lt = Inr (w1, q, r)"
        by (subst (asm) select_loop.simps) auto
      from "1.IH" [OF \<open>n > 1\<close> nd False this] show ?thesis by simp
    qed
  qed
qed

lemma select_frame:
  "ll_select_n_min_1 w node n lt = Inr (w1, q, r) \<Longrightarrow>
   lst w1 = lst w \<and> heap w1 = heap w \<and> calls (trace w1) = calls (trace w)"
  by (auto simp: ll_select_n_min_1_def Let_def split: if_splits dest: select_loop_frame)

lemma remove_finish_no_teardown:
  "val_teardown (lst w) = NULL \<Longrightarrow> \<exists>e. remove_finish w tmp = Inl e"
  by (auto simp: remove_finish_def Let_def split: sum.splits)

lemma remove_found_null_teardown:
  "val_teardown (lst w) = NULL \<Longrightarrow> node \<noteq> NULL \<Longrightarrow> \<exists>e. remove_found w l node = Inl e"
  by (auto simp: remove_found_def Let_def set_nxt_def split: sum.splits if_splits)

lemma remove_scan_found_null:
  assumes r: "rep w (xs @ b # ys)" and g: "\<forall>a\<in>set xs. go (val_of (heap w) a)"
    and b: "\<not> go (val_of (heap w) b)" and td: "val_teardown (lst w) = NULL"
  shows "\<exists>e. remove_scan w go = Some (Inl e)"
proof -
  let ?w = "emit [Lock ListLock l_write] w"
  have pth: "path (heap ?w) (hd_node (lst ?w)) (xs @ b # ys) NULL" using r by (simp add: rep_def)
  from scan_found [OF this, of go NULL] g b
  have sc: "scan ?w go NULL (hd_node (lst ?w)) = Some (Inr (if xs = [] then NULL else last xs, b))"
    by simp
  from path_live [OF pth, of b] have "b \<noteq> NULL" by simp
  from remove_found_null_teardown [of ?w b "if xs = [] then NULL else last xs"] td this
  obtain e where "remove_found ?w (if xs = [] then NULL else last xs) b = Inl e" by auto
  then show ?thesis using sc r by (simp add: remove_scan_def Let_def rep_def)
qed

lemma remove_scan_cases:
  assumes r: "rep w as" and res: "remove_scan w go = Some (Inr (w', r'))"
  shows "(r' = - 1 \<and> w' = emit [Lock ListLock l_write] w \<and>
            (\<forall>a\<in>set as. go (val_of (heap w) a))) \<or>
         (\<exists>xs b ys. as = xs @ b # ys \<and> (\<forall>a\<in>set xs. go (val_of (heap w) a)) \<and>
            \<not> go (val_of (heap w) b) \<and> r' = len (lst w) - 1 \<and> rep w' (xs @ ys) \<and>
            (\<forall>a\<in>set (xs @ ys). val_of (heap w') a = val_of (heap w) a) \<and>
            calls (trace w') =
              calls (trace w) @ [(val_teardown (lst w), val_of (heap w) b)] \<and>
            val_teardown (lst w') = val_teardown (lst w) \<and>
            val_printer (lst w') = val_printer (lst w))"
proof (cases "\<forall>a\<in>set as. go (val_of (heap w) a)")
  case True
  from remove_scan_none [OF r True] res show ?thesis using True by simp
next
  case False
  from first_stop [OF False] obtain xs b ys where s: "as = xs @ b # ys"
    "\<forall>a\<in>set xs. go (val_of (heap w) a)" "\<not> go (val_of (heap w) b)" by blast
  have r2: "rep w (xs @ b # ys)" using r s(1) by simp
  show ?thesis
  proof (cases "val_teardown (lst w) = NULL")
    case True
    from remove_scan_found_null [OF r2 s(2,3) True] res show ?thesis by auto
  next
    case False
    from remove_scan_found [OF r2 s(2,3) False] res s show ?thesis by auto
  qed
qed

lemma remove_rep_null:
  assumes r: "rep w as" and n: "0 \<le> n" "n < len (lst w)"
    and td: "val_teardown (lst w) = NULL"
  shows "\<exists>e. ll_remove_n w n = Inl e"
proof (cases "ll_remove_n w n")
  case (Inl e)
  then show ?thesis by simp
next
  case (Inr x)
  then obtain w' r' where res: "ll_remove_n w n = Inr (w', r')" by (cases x) auto
  have fin: "\<And>w2 tmp x. val_teardown (lst w2) = NULL \<Longrightarrow> remove_finish w2 tmp \<noteq> Inr x"
    using remove_finish_no_teardown by (metis sum.distinct(1))
  have valid: "valid_flag (lst w) = VALID" using r by (simp add: rep_def)
  show ?thesis
  proof (cases "n = 0")
    case True
    with res valid fin td show ?thesis
      by (auto simp: ll_remove_n_def Let_def split: sum.splits)
  next
    case False
    with n have n1: "1 \<le> n" by simp
    from select_rep [OF r n1, of NULL l_write] n obtain tr where
      "ll_select_n_min_1 w NULL n l_write = Inr (emit tr w, as ! nat (n - 1), 0)"
      by auto
    with res False fin td show ?thesis
      by (auto simp: ll_remove_n_def Let_def set_nxt_def split: sum.splits if_splits)
  qed
qed

lemma remove_n_cases:
  assumes r: "rep w as" and res: "ll_remove_n w n = Inr (w', r')"
  shows "(r' = - 1 \<and> (n < 0 \<or> len (lst w) < n) \<and> lst w' = lst w \<and> heap w' = heap w \<and>
            calls (trace w') = calls (trace w)) \<or>
         (0 \<le> n \<and> n < len (lst w) \<and> r' = len (lst w) - 1 \<and>
            rep w' (take (nat n) as @ drop (Suc (nat n)) as) \<and>
            (\<forall>a\<in>set as. a \<noteq> as ! nat n \<longrightarrow> val_of (heap w') a = val_of (heap w) a) \<and>
            calls (trace w') =
              calls (trace w) @ [(val_teardown (lst w), val_of (heap w) (as ! nat n))] \<and>
            val_teardown (lst w') = val_teardown (lst w) \<and>
            val_printer (lst w') = val_printer (lst w))"
proof -
  consider "n < 0 \<or> len (lst w) < n" | "n = len (lst w)" | "0 \<le> n" "n < len (lst w)"
    by linarith
  then show ?thesis
  proof cases
    case 1
    from remove_out_of_range [OF r 1] res show ?thesis using 1 by auto
  next
    case 2
    from remove_at_length [OF r 2] res show ?thesis by simp
  next
    case 3
    show ?thesis
    proof (cases "val_teardown (lst w) = NULL")
      case True
      from remove_rep_null [OF r 3 True] res show ?thesis by auto
    next
      case False
      from remove_rep [OF r 3 False] res 3 show ?thesis by auto
    qed
  qed
qed

lemma insert_out_of_range:
  assumes r: "rep w as" and f: "fresh p w" and n: "n < 0 \<or> len (lst w) < n"
  shows "\<exists>w'. ll_insert_n p w v n = Inr (w', - 1) \<and> lst w' = lst w \<and> heap w' = heap w \<and>
           calls (trace w') = calls (trace w)"
proof -
  have pn: "p \<noteq> NULL" and hp: "heap w p = None" using f by (auto simp: fresh_def)
  have pas: "p \<notin> set as" using r hp by (auto simp: rep_def dest: path_live)
  have n0: "n \<noteq> 0" using n r by (auto simp: rep_def)
  let ?w0 = "emit [LockInit (NodeLock p)] (w\<lparr>heap := (heap w)(p \<mapsto> \<lparr>val = v, nxt = NULL\<rparr>)\<rparr>)"
  have nn: "ll_new_node p v w = Inr (?w0, p)" using pn by (simp add: ll_new_node_def)
  have r0: "rep ?w0 as" using r pas by (simp add: rep_def path_upd)
  have hh: "(heap w)(p := None) = heap w" using hp by auto
  show ?thesis
  proof (cases "n < 0")
    case True
    then show ?thesis using nn hh
      by (simp add: ll_insert_n_def ll_select_n_min_1_def)
  next
    case False
    with n have n1: "1 \<le> n" "len (lst ?w0) < n" using r by (auto simp: rep_def)
    from select_rep [OF r0 n1(1), of NULL l_write] n1 obtain tr where tr: "calls tr = []"
      "ll_select_n_min_1 ?w0 NULL n l_write = Inr (emit tr ?w0, NULL, - 1)"
      by auto
    then show ?thesis using nn hh n0 by (simp add: ll_insert_n_def)
  qed
qed

lemma insert_cases:
  assumes r: "rep w as" and f: "fresh p w" and b: "len (lst w) < INT_MAX"
    and res: "ll_insert_n p w v n = Inr (w', r')"
  shows "(r' = - 1 \<and> (n < 0 \<or> len (lst w) < n) \<and> lst w' = lst w \<and> heap w' = heap w) \<or>
         (0 \<le> n \<and> n \<le> len (lst w) \<and> r' = len (lst w) + 1 \<and>
            rep w' (take (nat n) as @ p # drop (nat n) as))"
proof (cases "n < 0 \<or> len (lst w) < n")
  case True
  from insert_out_of_range [OF r f True, of v] res show ?thesis using True by auto
next
  case False
  then have n: "0 \<le> n" "n \<le> len (lst w)" by auto
  from insert_rep [OF r f n b, of v] res n show ?thesis by auto
qed

lemma length_invalid:
  "valid_flag (lst w) \<noteq> VALID \<Longrightarrow>
   ll_length w = (emit [Lock ListLock l_read, Unlock ListLock] w, - 1)"
  by (simp add: ll_length_def Let_def)

lemma insert_invalid:
  assumes "valid_flag (lst w) \<noteq> VALID" "p \<noteq> NULL"
  shows "\<exists>w'. ll_insert_n p w v n = Inr (w', - 1) \<and> lst w' = lst w \<and>
           calls (trace w') = calls (trace w)"
proof -
  consider "n = 0" | "n < 0" | "0 < n" by linarith
  then show ?thesis
  proof cases
    case 1
    with assms show ?thesis by (simp add: ll_insert_n_def ll_new_node_def Let_def)
  next
    case 2
    with assms show ?thesis
      by (simp add: ll_insert_n_def ll_new_node_def ll_select_n_min_1_def)
  next
    case 3
    with assms show ?thesis
      by (simp add: ll_insert_n_def ll_new_node_def select_invalid)
  qed
qed

lemma remove_invalid:
  assumes "valid_flag (lst w) \<noteq> VALID"
  shows "\<exists>tr. calls tr = [] \<and> ll_remove_n w n = Inr (emit tr w, - 1)"
proof -
  consider "n = 0" | "n < 0" | "0 < n" by linarith
  then show ?thesis
  proof cases
    case 1
    with assms show ?thesis
      by (intro exI [of _ "[Lock ListLock l_write, Unlock ListLock]"])
         (simp add: ll_remove_n_def Let_def)
  next
    case 2
    with assms show ?thesis
      by (intro exI [of _ "[]"]) (simp add: ll_remove_n_def ll_select_n_min_1_def emit_def)
  next
    case 3
    with assms show ?thesis
      by (intro exI [of _ "[Lock ListLock l_write, Unlock ListLock]"])
         (simp add: ll_remove_n_def select_invalid)
  qed
qed

lemma get_invalid:
  assumes "valid_flag (lst w) \<noteq> VALID" "INT_MIN \<le> n" "n \<le> INT_MAX" "n \<noteq> - 1"
  shows "\<exists>tr. calls tr = [] \<and> ll_get_n w n = Inr (emit tr w, NULL)"
proof -
  consider "n = INT_MAX" | "n < - 1" | "0 \<le> n" "n < INT_MAX" using assms by linarith
  then show ?thesis
  proof cases
    case 1
    then have "c_int (n + 1) < 0" by (simp add: c_int_def INT_MAX_def)
    then show ?thesis
      by (intro exI [of _ "[]"]) (simp add: ll_get_n_def ll_select_n_min_1_def emit_def)
  next
    case 2
    from get_negative [OF assms(2) 2] show ?thesis
      by (intro exI [of _ "[]"]) (simp add: emit_def)
  next
    case 3
    then have "c_int (n + 1) = n + 1"
      by (intro c_int_id) (auto simp: INT_MIN_def INT_MAX_def)
    with 3 assms(1) show ?thesis
      by (intro exI [of _ "[Lock ListLock l_read, Unlock ListLock]"])
         (simp add: ll_get_n_def select_invalid)
  qed
qed

lemma clear_loop_null_teardown:
  assumes "path (heap w) p (a # as) NULL" "val_teardown (lst w) = NULL"
  shows "clear_loop w p = Some (Inl NullCall)"
  using assms by (subst clear_loop.simps) (auto simp: node_at_def split: option.splits)

lemma inv_nodes_rep:
  assumes "ll_inv w" "nodes w = Some as"
  shows "rep w as"
proof -
  from assms(1) obtain bs where r: "rep w bs" by (auto simp: ll_inv_rep)
  from rep_nodes [OF r] assms(2) have "bs = as" by simp
  with r show ?thesis by simp
qed

lemma rep_inv: "rep w as \<Longrightarrow> ll_inv w"
  by (auto simp: ll_inv_rep)

lemma rep_len: "rep w as \<Longrightarrow> len (lst w) = int (length as)"
  by (simp add: rep_def)

lemma run_call_inv:
  assumes "ll_inv w" "pre c w"
  shows "\<exists>w'. run_call c w = Some (Inr w') \<and> ll_inv w'"
proof -
  from assms(1) obtain as where r: "rep w as" by (auto simp: ll_inv_rep)
  have emit_inv: "\<And>tr. ll_inv (emit tr w)" using r by (auto simp: ll_inv_rep)
  have scan: "\<exists>w'. map_option (map_sum id fst) (remove_scan w go) = Some (Inr w') \<and> ll_inv w'"
    if td: "val_teardown (lst w) \<noteq> NULL" for go
  proof (cases "\<forall>a\<in>set as. go (val_of (heap w) a)")
    case True
    from remove_scan_none [OF r True] emit_inv show ?thesis by simp
  next
    case False
    from first_stop [OF False] obtain xs b ys where s: "as = xs @ b # ys"
      "\<forall>a\<in>set xs. go (val_of (heap w) a)" "\<not> go (val_of (heap w) b)" by blast
    have "rep w (xs @ b # ys)" using r s(1) by simp
    from remove_scan_found [OF this s(2,3) td] show ?thesis by (auto dest: rep_inv)
  qed
  show ?thesis
  proof (cases c)
    case (Insert p v n)
    with assms(2) have h: "fresh p w" "0 \<le> n" "n \<le> len (lst w)" "len (lst w) < INT_MAX"
      by auto
    from insert_rep [OF r h, of v] Insert show ?thesis by (auto dest: rep_inv)
  next
    case (Remove n)
    with assms(2) have h: "0 \<le> n" "n < len (lst w)" "val_teardown (lst w) \<noteq> NULL" by auto
    from remove_rep [OF r h] Remove show ?thesis by (auto dest: rep_inv)
  next
    case PopFirst
    show ?thesis
    proof (cases as)
      case Nil
      with r have "rep w []" by simp
      from pop_rep_empty [OF this] PopFirst emit_inv show ?thesis by simp
    next
      case (Cons a as')
      with r have "rep w (a # as')" by simp
      from pop_rep_cons [OF this] PopFirst show ?thesis by (auto dest: rep_inv)
    qed
  next
    case (RemoveSearch cond)
    with assms(2) scan [of "\<lambda>v. cond v = 0"] show ?thesis
      by (simp add: remove_search_scan)
  next
    case (RemoveFind comparator ref_value)
    with assms(2) scan [of "\<lambda>v. comparator v ref_value \<noteq> 0"] show ?thesis
      by (simp add: remove_find_scan)
  next
    case (Get n)
    with assms(2) have h: "0 \<le> n" "n < len (lst w)" by auto
    from get_rep [OF r h] Get emit_inv show ?thesis by auto
  next
    case (Find comparator ref_value)
    show ?thesis
    proof (cases "\<forall>a\<in>set as. comparator (val_of (heap w) a) ref_value \<noteq> 0")
      case True
      from find_none [of w as comparator ref_value, OF r True] Find emit_inv
      show ?thesis by simp
    next
      case False
      from first_stop [OF False] obtain xs b ys where s: "as = xs @ b # ys"
        "\<forall>a\<in>set xs. comparator (val_of (heap w) a) ref_value \<noteq> 0"
        "\<not> comparator (val_of (heap w) b) ref_value \<noteq> 0" by blast
      have "rep w (xs @ b # ys)" using r s(1) by simp
      from find_found [of w xs b ys comparator ref_value, OF this s(2)] s(3) Find emit_inv
      show ?thesis by simp
    qed
  next
    case (Map f)
    with assms(2) have "f \<noteq> NULL" by simp
    from map_rep [OF r this] Map emit_inv show ?thesis by auto
  next
    case Length
    with r emit_inv show ?thesis by (simp add: ll_length_def Let_def rep_def)
  next
    case Print
    from print_rep [OF r] Print emit_inv show ?thesis by auto
  qed
qed

lemma new_inv: "ll_inv (ll_new td junk)"
  by (simp add: ll_inv_def ll_new_def nodes_def INT_MAX_def)

lemma run_inv: "ll_inv w \<Longrightarrow> pres cs w \<Longrightarrow> \<exists>w'. run cs w = Some (Inr w') \<and> ll_inv w'"
proof (induction cs arbitrary: w)
  case Nil
  then show ?case by simp
next
  case (Cons c cs)
  from Cons.prems have "pre c w" by simp
  from run_call_inv [OF Cons.prems(1) this] obtain w1 where
    w1: "run_call c w = Some (Inr w1)" "ll_inv w1" by auto
  with Cons.prems have "pres cs w1" by simp
  from Cons.IH [OF w1(2) this] w1(1) show ?case by simp
qed

lemma invalid_list_operations:
  assumes "valid_flag (lst w) = INVALID"
  shows "ll_length w = (emit [Lock ListLock l_read, Unlock ListLock] w, - 1)"
    and "p \<noteq> NULL \<Longrightarrow>
           \<exists>w'. ll_insert_n p w v n = Inr (w', - 1) \<and> lst w' = lst w \<and>
             calls (trace w') = calls (trace w)"
    and "\<exists>tr. calls tr = [] \<and> ll_remove_n w n = Inr (emit tr w, - 1)"
    and "ll_pop_first w = Inr (emit [Lock ListLock l_write, Unlock ListLock] w, NULL)"
    and "ll_remove_search w cond =
           Some (Inr (emit [Lock ListLock l_write, Unlock ListLock] w, - 1))"
    and "ll_remove_find w comparator ref_value =
           Some (Inr (emit [Lock ListLock l_write, Unlock ListLock] w, - 1))"
    and "INT_MIN \<le> n \<Longrightarrow> n \<le> INT_MAX \<Longrightarrow> n \<noteq> - 1 \<Longrightarrow>
           \<exists>tr. calls tr = [] \<and> ll_get_n w n = Inr (emit tr w, NULL)"
    and "ll_find w comparator ref_value =
           Some (Inr (emit [Lock ListLock l_read, Unlock ListLock] w, NULL))"
    and "ll_map w f = Some (Inr (emit [Lock ListLock l_read, Unlock ListLock] w))"
    and "ll_print w = Some (Inr (emit [Lock CopyLock l_read, Unlock CopyLock] w))"
    and "ll_clear w = Some (Inr (emit [Lock ListLock l_write, Unlock ListLock] w))"
proof -
  have nv: "valid_flag (lst w) \<noteq> VALID" using assms by simp
  show "ll_length w = (emit [Lock ListLock l_read, Unlock ListLock] w, - 1)"
    using nv by (rule length_invalid)
  show "\<exists>w'. ll_insert_n p w v n = Inr (w', - 1) \<and> lst w' = lst w \<and>
             calls (trace w') = calls (trace w)" if "p \<noteq> NULL"
    using nv that by (rule insert_invalid)
  show "\<exists>tr. calls tr = [] \<and> ll_remove_n w n = Inr (emit tr w, - 1)"
    using nv by (rule remove_invalid)
  show "ll_pop_first w = Inr (emit [Lock ListLock l_write, Unlock ListLock] w, NULL)"
    using nv by (rule pop_invalid)
  show "ll_remove_search w cond =
           Some (Inr (emit [Lock ListLock l_write, Unlock ListLock] w, - 1))"
    using nv by (simp add: remove_search_scan remove_scan_invalid)
  show "ll_remove_find w comparator ref_value =
           Some (Inr (emit [Lock ListLock l_write, Unlock ListLock] w, - 1))"
    using nv by (simp add: remove_find_scan remove_scan_invalid)
  show "\<exists>tr. calls tr = [] \<and> ll_get_n w n = Inr (emit tr w, NULL)"
    if "INT_MIN \<le> n" "n \<le> INT_MAX" "n \<noteq> - 1"
    using nv that by (rule get_invalid)
  show "ll_find w comparator ref_value =
           Some (Inr (emit [Lock ListLock l_read, Unlock ListLock] w, NULL))"
    using nv by (rule find_invalid)
  show "ll_map w f = Some (Inr (emit [Lock ListLock l_read, Unlock ListLock] w))"
    using nv by (rule map_invalid)
  show "ll_print w = Some (Inr (emit [Lock CopyLock l_read, Unlock CopyLock] w))"
    using nv by (rule print_invalid)
  show "ll_clear w = Some (Inr (emit [Lock ListLock l_write, Unlock ListLock] w))"
    using nv by (rule clear_invalid)
qed


lemma ll_inv_frame: "lst w' = lst w \<Longrightarrow> heap w' = heap w \<Longrightarrow> ll_inv w' = ll_inv w"
  by (simp add: ll_inv_def nodes_def)

lemma get_frame:
  assumes "ll_get_n w n = Inr (w', v)"
  shows "lst w' = lst w \<and> heap w' = heap w \<and> calls (trace w') = calls (trace w)"
proof (cases "ll_select_n_min_1 w NULL (c_int (n + 1)) l_read")
  case (Inl e)
  with assms show ?thesis by (simp add: ll_get_n_def)
next
  case (Inr x)
  then obtain w1 q r where s: "ll_select_n_min_1 w NULL (c_int (n + 1)) l_read = Inr (w1, q, r)"
    by (cases x) auto
  from select_frame [OF s] assms s show ?thesis
    by (auto simp: ll_get_n_def split: if_splits sum.splits)
qed

lemma map_rep_null:
  assumes r: "rep w as" and res: "ll_map w NULL = Some (Inr w')"
  shows "w' = emit [Lock ListLock l_read, Unlock ListLock] w"
proof (cases as)
  case Nil
  with r have "hd_node (lst w) = NULL" "valid_flag (lst w) = VALID" by (auto simp: rep_def)
  moreover have "ll_map_internal (emit [Lock ListLock l_read] w) NULL NULL =
                   Some (Inr (emit [Lock ListLock l_read] w))"
    by (subst ll_map_internal.simps) simp
  ultimately show ?thesis using res by (simp add: ll_map_def Let_def)
next
  case (Cons a as')
  with r obtain nd where "heap w a = Some nd" "hd_node (lst w) = a" "a \<noteq> NULL"
    "valid_flag (lst w) = VALID"
    by (auto simp: rep_def split: option.splits)
  moreover from this have "ll_map_internal (emit [Lock ListLock l_read] w) NULL a =
                   Some (Inl NullCall)"
    by (subst ll_map_internal.simps) (simp add: node_at_def)
  ultimately show ?thesis using res by (simp add: ll_map_def Let_def)
qed

lemma map_sum_fst_Inr: "map_sum id fst x = Inr w' \<Longrightarrow> \<exists>k. x = Inr (w', k)"
  by (cases x) auto

lemma map_option_sum_fst_Inr:
  "map_option (map_sum id fst) y = Some (Inr w') \<Longrightarrow> \<exists>k. y = Some (Inr (w', k))"
  by (cases y) (auto dest: map_sum_fst_Inr)

lemma run_call_preserves:
  assumes "ll_inv w" "alloc_ok c w" "run_call c w = Some (Inr w')"
  shows "ll_inv w'"
proof -
  from assms(1) obtain as where r: "rep w as" by (auto simp: ll_inv_rep)
  have emit_inv: "\<And>tr. ll_inv (emit tr w)" using r by (auto simp: ll_inv_rep)
  have same: "ll_inv w'" if "lst w' = lst w" "heap w' = heap w"
    using ll_inv_frame [OF that] assms(1) by blast
  have scan: "ll_inv w'" if "remove_scan w go = Some (Inr (w', k))" for go k
    using remove_scan_cases [OF r that] emit_inv by (auto dest: rep_inv)
  show ?thesis
  proof (cases c)
    case (Insert p v n)
    with assms(3) obtain k where res: "ll_insert_n p w v n = Inr (w', k)"
      by (auto dest: map_sum_fst_Inr)
    from Insert assms(2) have "fresh p w" "len (lst w) < INT_MAX" by auto
    from insert_cases [OF r this res] show ?thesis
    proof
      assume "k = - 1 \<and> (n < 0 \<or> len (lst w) < n) \<and> lst w' = lst w \<and> heap w' = heap w"
      then show ?thesis using same by blast
    next
      assume "0 \<le> n \<and> n \<le> len (lst w) \<and> k = len (lst w) + 1 \<and>
        rep w' (take (nat n) as @ p # drop (nat n) as)"
      then show ?thesis using rep_inv by blast
    qed
  next
    case (Remove n)
    with assms(3) obtain k where res: "ll_remove_n w n = Inr (w', k)"
      by (auto dest: map_sum_fst_Inr)
    from remove_n_cases [OF r res] show ?thesis
    proof
      assume "k = - 1 \<and> (n < 0 \<or> len (lst w) < n) \<and> lst w' = lst w \<and> heap w' = heap w \<and>
        calls (trace w') = calls (trace w)"
      then show ?thesis using same by blast
    next
      assume "0 \<le> n \<and> n < len (lst w) \<and> k = len (lst w) - 1 \<and>
        rep w' (take (nat n) as @ drop (Suc (nat n)) as) \<and>
        (\<forall>a\<in>set as. a \<noteq> as ! nat n \<longrightarrow> val_of (heap w') a = val_of (heap w) a) \<and>
        calls (trace w') =
          calls (trace w) @ [(val_teardown (lst w), val_of (heap w) (as ! nat n))] \<and>
        val_teardown (lst w') = val_teardown (lst w) \<and>
        val_printer (lst w') = val_printer (lst w)"
      then show ?thesis using rep_inv by blast
    qed
  next
    case PopFirst
    show ?thesis
    proof (cases as)
      case Nil
      with r have "rep w []" by simp
      from pop_rep_empty [OF this] PopFirst assms(3) emit_inv show ?thesis by auto
    next
      case (Cons a as')
      with r have "rep w (a # as')" by simp
      from pop_rep_cons [OF this] PopFirst assms(3) show ?thesis by (auto dest: rep_inv)
    qed
  next
    case (RemoveSearch cond)
    with assms(3) have "map_option (map_sum id fst) (remove_scan w (\<lambda>v. cond v = 0)) =
        Some (Inr w')" by (simp add: remove_search_scan)
    from map_option_sum_fst_Inr [OF this]
    obtain k where "remove_scan w (\<lambda>v. cond v = 0) = Some (Inr (w', k))" ..
    then show ?thesis by (rule scan)
  next
    case (RemoveFind comparator ref_value)
    with assms(3) have "map_option (map_sum id fst)
        (remove_scan w (\<lambda>v. comparator v ref_value \<noteq> 0)) = Some (Inr w')"
      by (simp add: remove_find_scan)
    from map_option_sum_fst_Inr [OF this] obtain k where
      "remove_scan w (\<lambda>v. comparator v ref_value \<noteq> 0) = Some (Inr (w', k))" ..
    then show ?thesis by (rule scan)
  next
    case (Get n)
    with assms(3) obtain v where res: "ll_get_n w n = Inr (w', v)"
      by (auto dest: map_sum_fst_Inr)
    from get_frame [OF res] show ?thesis using same by blast
  next
    case (Find comparator ref_value)
    show ?thesis
    proof (cases "\<forall>a\<in>set as. comparator (val_of (heap w) a) ref_value \<noteq> 0")
      case True
      from find_none [of w as comparator ref_value, OF r True] Find assms(3) emit_inv
      show ?thesis by auto
    next
      case False
      from first_stop [OF False] obtain xs b ys where s: "as = xs @ b # ys"
        "\<forall>a\<in>set xs. comparator (val_of (heap w) a) ref_value \<noteq> 0"
        "\<not> comparator (val_of (heap w) b) ref_value \<noteq> 0" by blast
      have "rep w (xs @ b # ys)" using r s(1) by simp
      from find_found [of w xs b ys comparator ref_value, OF this s(2)] s(3) Find assms(3)
        emit_inv
      show ?thesis by auto
    qed
  next
    case (Map f)
    show ?thesis
    proof (cases "f = NULL")
      case True
      with Map assms(3) have "ll_map w NULL = Some (Inr w')" by simp
      from map_rep_null [OF r this] emit_inv show ?thesis by simp
    next
      case False
      from map_rep [OF r False] Map assms(3) emit_inv show ?thesis by auto
    qed
  next
    case Length
    with assms(3) emit_inv show ?thesis by (auto simp: ll_length_def Let_def)
  next
    case Print
    from print_rep [OF r] Print assms(3) emit_inv show ?thesis by auto
  qed
qed

lemma clear_invalidates: "ll_clear w = Some (Inr w') \<Longrightarrow> valid_flag (lst w') = INVALID"
  by (cases "valid_flag (lst w)")
     (auto simp: ll_clear_def Let_def split: option.splits sum.splits if_splits)


lemma select_path:
  assumes "valid_flag (lst w) = VALID" "path (heap w) (hd_node (lst w)) as NULL" "as \<noteq> []"
    "1 \<le> n"
  shows "\<exists>tr. calls tr = [] \<and>
     ll_select_n_min_1 w node n lt =
       (if n \<le> int (length as) then Inr (emit tr w, as ! nat (n - 1), 0)
        else Inr (emit tr w, NULL, - 1))"
proof -
  from assms(2,3) have hd: "hd_node (lst w) \<noteq> NULL" by (cases as) auto
  let ?w = "emit [Lock (NodeLock (hd_node (lst w))) lt] (emit [Lock ListLock lt] w)"
  from assms have "path (heap ?w) (hd_node (lst w)) as NULL" by simp
  from select_loop_path [OF this assms(3,4), of lt] obtain tr where tr: "calls tr = []"
    "select_loop ?w (hd_node (lst w)) n lt =
       (if n \<le> int (length as) then Inr (emit tr ?w, as ! nat (n - 1), 0)
        else Inr (emit tr ?w, NULL, - 1))" by auto
  have "ll_select_n_min_1 w node n lt = select_loop ?w (hd_node (lst w)) n lt"
    using assms hd by (simp add: ll_select_n_min_1_def Let_def)
  with tr show ?thesis
    by (intro exI [of _ "[Lock ListLock lt, Lock (NodeLock (hd_node (lst w))) lt] @ tr"])
       auto
qed

lemma get_path:
  assumes "valid_flag (lst w) = VALID" "path (heap w) (hd_node (lst w)) as NULL"
    "0 \<le> n" "n < int (length as)" "n < INT_MAX"
  shows "\<exists>tr. calls tr = [] \<and> ll_get_n w n = Inr (emit tr w, val_of (heap w) (as ! nat n))"
proof -
  have ne: "as \<noteq> []" using assms(3,4) by auto
  have ci: "c_int (n + 1) = n + 1"
    using assms(3,5) by (intro c_int_id) (auto simp: INT_MIN_def INT_MAX_def)
  from select_path [OF assms(1,2) ne, of "n + 1" NULL l_read] assms(3,4)
  obtain tr where tr: "calls tr = []"
    "ll_select_n_min_1 w NULL (n + 1) l_read = Inr (emit tr w, as ! nat n, 0)"
    by auto
  have "as ! nat n \<in> set as" using assms(3,4) by simp
  from path_live [OF assms(2) this] obtain nd where
    "heap w (as ! nat n) = Some nd" "as ! nat n \<noteq> NULL" by auto
  then show ?thesis using tr ci
    by (intro exI [of _ "tr @ [Unlock (NodeLock (as ! nat n)), Unlock ListLock]"])
       (simp add: ll_get_n_def node_at_def val_of_def)
qed

lemma big_path:
  "1 \<le> j \<Longrightarrow> j + d = k \<Longrightarrow> path (heap (big k)) j [j..<Suc k] NULL"
proof (induction d arbitrary: j)
  case 0
  then have "[j..<Suc k] = [j]" by simp
  with 0 show ?case by (simp add: big_def)
next
  case (Suc d)
  then have u: "[j..<Suc k] = j # [Suc j..<Suc k]" by (simp add: upt_conv_Cons)
  from Suc.prems have "path (heap (big k)) (Suc j) [Suc j..<Suc k] NULL"
    by (intro Suc.IH) auto
  with Suc.prems show ?case by (subst u) (simp add: big_def)
qed

lemma big_rep: "int k \<le> INT_MAX \<Longrightarrow> rep (big k) [1..<Suc k]"
proof (cases "k = 0")
  case True
  then show ?thesis by (simp add: rep_def big_def INT_MAX_def)
next
  case False
  assume b: "int k \<le> INT_MAX"
  from False have "path (heap (big k)) 1 [1..<Suc k] NULL"
    by (intro big_path [of 1 "k - 1"]) auto
  moreover have "hd_node (lst (big k)) = 1" "valid_flag (lst (big k)) = VALID"
    "len (lst (big k)) = int k"
    using False by (simp_all add: big_def)
  ultimately show ?thesis using b by (simp add: rep_def)
qed

lemma big_inv: "int k \<le> INT_MAX \<Longrightarrow> ll_inv (big k)"
  using big_rep ll_inv_rep by blast

lemma big_fresh: "fresh (Suc k) (big k)"
  by (simp add: fresh_def big_def)

lemma insert_cases_wrap:
  assumes r: "rep w as" and f: "fresh p w" and res: "ll_insert_n p w v n = Inr (w', r')"
  shows "(r' = - 1 \<and> (n < 0 \<or> len (lst w) < n) \<and> lst w' = lst w \<and> heap w' = heap w) \<or>
         (0 \<le> n \<and> n \<le> len (lst w) \<and> r' = c_int (len (lst w) + 1) \<and> r' \<noteq> - 1 \<and>
            len (lst w') = c_int (len (lst w) + 1))"
proof (cases "n < 0 \<or> len (lst w) < n")
  case True
  from insert_out_of_range [OF r f True, of v] res show ?thesis using True by auto
next
  case False
  then have n: "0 \<le> n" "n \<le> len (lst w)" by auto
  have "0 \<le> len (lst w)" "len (lst w) \<le> INT_MAX" using r by (simp_all add: rep_def)
  then have "c_int (len (lst w) + 1) \<noteq> - 1" by (rule c_int_succ_not_minus_one)
  with insert_wrap [OF r f n, of v] res n show ?thesis by auto
qed

lemma big_insert:
  assumes "int k \<le> INT_MAX" "0 \<le> n" "n \<le> int k"
  shows "\<exists>w'. ll_insert_n (Suc k) (big k) v n = Inr (w', c_int (int k + 1)) \<and>
           len (lst w') = c_int (int k + 1)"
proof -
  have l: "len (lst (big k)) = int k" by (simp add: big_def)
  from insert_wrap [OF big_rep [OF assms(1)] big_fresh, of n v] assms(2,3) l
  show ?thesis by auto
qed

lemma get_int_max: "ll_get_n w 2147483647 = Inr (w, NULL)"
  by (simp add: ll_get_n_def c_int_def ll_select_n_min_1_def)

lemma neg_len_not_inv: "len (lst w) < 0 \<Longrightarrow> \<not> ll_inv w"
  by (simp add: ll_inv_def)


section \<open>Evaluation on concrete lists\<close>

lemmas eval_defs = ll_new_def ll_insert_n_def ll_new_node_def ll_select_n_min_1_def select_loop.simps
  insert_finish_def set_nxt_def node_at_def emit_def set_hd_def set_len_def free_node_def
  c_int_def Let_def ll_get_n_def ll_remove_n_def remove_finish_def ll_pop_first_def
  fresh_def INT_MAX_def ll_length_def two_nodes_def ll_remove_search_def ll_remove_find_def
  scan.simps remove_found_def ll_find_def ll_map_def ll_map_internal.simps ll_print_def
  ll_clear_def clear_loop.simps ll_delete_def

lemma two_nodes_inv: "ll_inv two_nodes"
  by (simp add: two_nodes_def ll_inv_def nodes_def INT_MAX_def eval_nat_numeral)

lemma two_nodes_nodes: "nodes two_nodes = Some [1, 2]"
  by (simp add: two_nodes_def nodes_def eval_nat_numeral)

lemma clear_two_nodes: "ll_clear two_nodes = Some (Inr cleared_list)"
  by (simp add: eval_defs cleared_list_def fun_eq_iff)


section \<open>The claims\<close>

text \<open>
  C1. The claim: for a valid list and every index \<open>n < 0\<close> or \<open>n \<ge> len\<close>,
  \<^verbatim>\<open>ll_remove_n\<close> returns \<open>-1\<close>, calls no teardown and leaves the list as it is,
  also for \<open>n = 0\<close> on the empty list and for \<open>n = len\<close>. The code does so for
  \<open>n < 0\<close> and for \<open>n > len\<close> (lemma \<open>remove_out_of_range\<close>). For \<open>n = len\<close>
  it does not return (lemma \<open>remove_at_length\<close>): on the empty list \<^verbatim>\<open>tmp->nxt\<close> is
  read with \<^verbatim>\<open>tmp\<close> null; on a longer list the selection returns the last node, \<^verbatim>\<open>tmp\<close>
  is its null successor, and \<^verbatim>\<open>tmp->val\<close> is read after \<^verbatim>\<open>len\<close> was decremented.
  The theorem runs the code on the empty list with \<open>n = 0\<close> and on a list of two nodes
  with \<open>n = 2\<close>.
\<close>

theorem remove_at_length_faults:
  "ll_inv (ll_new 9 0) \<and> len (lst (ll_new 9 0)) = 0 \<and>
   ll_remove_n (ll_new 9 0) 0 = Inl NullDeref \<and>
   ll_inv two_nodes \<and> len (lst two_nodes) = 2 \<and>
   ll_remove_n two_nodes 2 = Inl NullDeref"
proof -
  have "rep (ll_new 9 0) []" by (simp add: rep_def ll_new_def INT_MAX_def)
  from remove_at_length [OF this, of 0] have a: "ll_remove_n (ll_new 9 0) 0 = Inl NullDeref"
    by (simp add: ll_new_def)
  have "rep two_nodes [1, 2]" using two_nodes_inv two_nodes_nodes by (rule inv_nodes_rep)
  from remove_at_length [OF this, of 2] have b: "ll_remove_n two_nodes 2 = Inl NullDeref"
    by (simp add: two_nodes_def)
  show ?thesis using a b new_inv two_nodes_inv by (simp add: ll_new_def two_nodes_def)
qed

text \<open>
  C2. On a valid list of fewer than \<open>INT_MAX\<close> nodes, \<^verbatim>\<open>ll_insert_n\<close> with
  \<open>0 \<le> n \<le> len\<close> succeeds, adds one to \<^verbatim>\<open>len\<close> and returns the new length, and
  every insertion that returns a value other than \<open>-1\<close> has done so. On every valid
  list: an insertion that returns \<open>-1\<close> leaves \<^verbatim>\<open>len\<close> as it was, and a removal
  (\<^verbatim>\<open>ll_remove_n\<close>, \<^verbatim>\<open>ll_remove_search\<close>, \<^verbatim>\<open>ll_remove_find\<close>) that returns either
  returns \<open>-1\<close> and \<^verbatim>\<open>len\<close> is as before, or returns the new \<^verbatim>\<open>len\<close>, which is the
  old one minus one. \<open>fresh p w\<close> is what \<^verbatim>\<open>malloc\<close> guarantees for the new node.
\<close>

theorem length_accounting:
  assumes "ll_inv w"
  shows "(fresh p w \<and> 0 \<le> n \<and> n \<le> len (lst w) \<and> len (lst w) < INT_MAX \<longrightarrow>
            (\<exists>w1. ll_insert_n p w v n = Inr (w1, len (lst w) + 1) \<and>
               len (lst w1) = len (lst w) + 1)) \<and>
         (fresh p w \<and> ll_insert_n p w v n = Inr (w', - 1) \<longrightarrow>
            len (lst w') = len (lst w)) \<and>
         (fresh p w \<and> len (lst w) < INT_MAX \<and> ll_insert_n p w v n = Inr (w', r) \<and>
          r \<noteq> - 1 \<longrightarrow>
            len (lst w') = len (lst w) + 1 \<and> r = len (lst w')) \<and>
         (ll_remove_n w m = Inr (w', r) \<longrightarrow>
            (if r = - 1 then len (lst w') = len (lst w)
             else len (lst w') = len (lst w) - 1 \<and> r = len (lst w'))) \<and>
         (ll_remove_search w cond = Some (Inr (w', r)) \<longrightarrow>
            (if r = - 1 then len (lst w') = len (lst w)
             else len (lst w') = len (lst w) - 1 \<and> r = len (lst w'))) \<and>
         (ll_remove_find w comparator ref_value = Some (Inr (w', r)) \<longrightarrow>
            (if r = - 1 then len (lst w') = len (lst w)
             else len (lst w') = len (lst w) - 1 \<and> r = len (lst w')))"
proof -
  from assms obtain as where r: "rep w as" by (auto simp: ll_inv_rep)
  have ln: "len (lst w) = int (length as)" using r by (rule rep_len)
  have scan: "if r = - 1 then len (lst w') = len (lst w)
              else len (lst w') = len (lst w) - 1 \<and> r = len (lst w')"
    if "remove_scan w go = Some (Inr (w', r))" for go
    using remove_scan_cases [OF r that] ln by (auto dest!: rep_len)
  have A: "fresh p w \<and> 0 \<le> n \<and> n \<le> len (lst w) \<and> len (lst w) < INT_MAX \<longrightarrow>
            (\<exists>w1. ll_insert_n p w v n = Inr (w1, len (lst w) + 1) \<and>
               len (lst w1) = len (lst w) + 1)"
  proof
    assume h: "fresh p w \<and> 0 \<le> n \<and> n \<le> len (lst w) \<and> len (lst w) < INT_MAX"
    then have h': "fresh p w" "0 \<le> n" "n \<le> len (lst w)" "len (lst w) < INT_MAX" by auto
    from insert_rep [OF r h', of v] obtain w1 where w1:
      "ll_insert_n p w v n = Inr (w1, len (lst w) + 1)"
      "rep w1 (take (nat n) as @ p # drop (nat n) as)" by auto
    have "len (lst w1) = len (lst w) + 1" using rep_len [OF w1(2)] ln h'(2,3) by simp
    with w1(1) show "\<exists>w1. ll_insert_n p w v n = Inr (w1, len (lst w) + 1) \<and>
               len (lst w1) = len (lst w) + 1" by auto
  qed
  have B: "fresh p w \<and> ll_insert_n p w v n = Inr (w', - 1) \<longrightarrow> len (lst w') = len (lst w)"
  proof
    assume h: "fresh p w \<and> ll_insert_n p w v n = Inr (w', - 1)"
    then have h': "fresh p w" "ll_insert_n p w v n = Inr (w', - 1)" by auto
    from insert_cases_wrap [OF r h'] show "len (lst w') = len (lst w)" by auto
  qed
  have C: "fresh p w \<and> len (lst w) < INT_MAX \<and> ll_insert_n p w v n = Inr (w', r) \<and>
          r \<noteq> - 1 \<longrightarrow> len (lst w') = len (lst w) + 1 \<and> r = len (lst w')"
  proof
    assume h: "fresh p w \<and> len (lst w) < INT_MAX \<and> ll_insert_n p w v n = Inr (w', r) \<and>
      r \<noteq> - 1"
    then have h': "fresh p w" "len (lst w) < INT_MAX" "ll_insert_n p w v n = Inr (w', r)"
      and nr: "r \<noteq> - 1" by auto
    from insert_cases [OF r h'] nr ln
    show "len (lst w') = len (lst w) + 1 \<and> r = len (lst w')"
      by (auto dest!: rep_len)
  qed
  have D: "ll_remove_n w m = Inr (w', r) \<longrightarrow>
            (if r = - 1 then len (lst w') = len (lst w)
             else len (lst w') = len (lst w) - 1 \<and> r = len (lst w'))"
  proof
    assume h: "ll_remove_n w m = Inr (w', r)"
    from remove_n_cases [OF r h] ln
    show "if r = - 1 then len (lst w') = len (lst w)
          else len (lst w') = len (lst w) - 1 \<and> r = len (lst w')"
      by (auto dest!: rep_len)
  qed
  have E: "ll_remove_search w cond = Some (Inr (w', r)) \<longrightarrow>
            (if r = - 1 then len (lst w') = len (lst w)
             else len (lst w') = len (lst w) - 1 \<and> r = len (lst w'))"
  proof
    assume "ll_remove_search w cond = Some (Inr (w', r))"
    then show "if r = - 1 then len (lst w') = len (lst w)
          else len (lst w') = len (lst w) - 1 \<and> r = len (lst w')"
      by (intro scan [of "\<lambda>v. cond v = 0"]) (simp add: remove_search_scan)
  qed
  have F: "ll_remove_find w comparator ref_value = Some (Inr (w', r)) \<longrightarrow>
            (if r = - 1 then len (lst w') = len (lst w)
             else len (lst w') = len (lst w) - 1 \<and> r = len (lst w'))"
  proof
    assume "ll_remove_find w comparator ref_value = Some (Inr (w', r))"
    then show "if r = - 1 then len (lst w') = len (lst w)
          else len (lst w') = len (lst w) - 1 \<and> r = len (lst w')"
      by (intro scan [of "\<lambda>v. comparator v ref_value \<noteq> 0"]) (simp add: remove_find_scan)
  qed
  show ?thesis by (intro conjI A B C D E F)
qed

theorem length_accounting_witness:
  "ll_inv two_nodes \<and> fresh 3 two_nodes \<and> (0::int) \<le> 1 \<and> 1 \<le> len (lst two_nodes) \<and>
   len (lst two_nodes) < INT_MAX \<and>
   (\<exists>w1. ll_insert_n 3 two_nodes 30 1 = Inr (w1, 3) \<and> len (lst w1) = 3) \<and>
   (\<exists>w1. ll_insert_n 3 two_nodes 30 5 = Inr (w1, - 1) \<and> len (lst w1) = 2) \<and>
   (\<exists>w1 r. ll_insert_n 3 two_nodes 30 0 = Inr (w1, r) \<and> r \<noteq> - 1 \<and> len (lst w1) = 3 \<and>
      r = 3) \<and>
   (\<exists>w1. ll_remove_n two_nodes 1 = Inr (w1, 1) \<and> len (lst w1) = 1) \<and>
   (\<exists>w1. ll_remove_n two_nodes 7 = Inr (w1, - 1) \<and> len (lst w1) = 2) \<and>
   (\<exists>w1. ll_remove_search two_nodes (\<lambda>v. if v = 20 then 1 else 0) = Some (Inr (w1, 1)) \<and>
      len (lst w1) = 1) \<and>
   (\<exists>w1. ll_remove_find two_nodes (\<lambda>a b. int a - int b) 10 = Some (Inr (w1, 1)) \<and>
      len (lst w1) = 1)"
proof -
  note la = length_accounting [OF two_nodes_inv]
  have h: "fresh 3 two_nodes" "(0::int) \<le> 1" "1 \<le> len (lst two_nodes)"
    "len (lst two_nodes) < INT_MAX" and l: "len (lst two_nodes) = 2"
    by (simp_all add: two_nodes_def fresh_def INT_MAX_def)
  from la [of 3 1 30, THEN conjunct1] h l
  have a: "\<exists>w1. ll_insert_n 3 two_nodes 30 1 = Inr (w1, 3) \<and> len (lst w1) = 3" by simp
  have "\<exists>w1. ll_insert_n 3 two_nodes 30 5 = Inr (w1, - 1)" by (simp add: eval_defs)
  then obtain w1 where "ll_insert_n 3 two_nodes 30 5 = Inr (w1, - 1)" ..
  with la [of 3 5 30 w1, THEN conjunct2, THEN conjunct1] h l
  have b: "\<exists>w1. ll_insert_n 3 two_nodes 30 5 = Inr (w1, - 1) \<and> len (lst w1) = 2" by auto
  have "\<exists>w1. ll_insert_n 3 two_nodes 30 0 = Inr (w1, 3)" by (simp add: eval_defs)
  then obtain w0 where "ll_insert_n 3 two_nodes 30 0 = Inr (w0, 3)" ..
  with la [of 3 0 30 w0 3, THEN conjunct2, THEN conjunct2, THEN conjunct1] h l
  have b': "\<exists>w1 r. ll_insert_n 3 two_nodes 30 0 = Inr (w1, r) \<and> r \<noteq> - 1 \<and>
      len (lst w1) = 3 \<and> r = 3" by auto
  have "\<exists>w1. ll_remove_n two_nodes 1 = Inr (w1, 1)" by (simp add: eval_defs)
  then obtain w2 where "ll_remove_n two_nodes 1 = Inr (w2, 1)" ..
  with la [of _ _ _ w2 1 1, THEN conjunct2, THEN conjunct2, THEN conjunct2, THEN conjunct1] l
  have c: "\<exists>w1. ll_remove_n two_nodes 1 = Inr (w1, 1) \<and> len (lst w1) = 1" by auto
  have "\<exists>w1. ll_remove_n two_nodes 7 = Inr (w1, - 1)" by (simp add: eval_defs)
  then obtain w3 where "ll_remove_n two_nodes 7 = Inr (w3, - 1)" ..
  with la [of _ _ _ w3 "- 1" 7, THEN conjunct2, THEN conjunct2, THEN conjunct2,
      THEN conjunct1] l
  have d: "\<exists>w1. ll_remove_n two_nodes 7 = Inr (w1, - 1) \<and> len (lst w1) = 2" by auto
  have "\<exists>w1. ll_remove_search two_nodes (\<lambda>v. if v = 20 then 1 else 0) = Some (Inr (w1, 1))"
    by (simp add: eval_defs)
  then obtain w4 where
    "ll_remove_search two_nodes (\<lambda>v. if v = 20 then 1 else 0) = Some (Inr (w4, 1))" ..
  with la [of _ _ _ w4 1 _ "\<lambda>v. if v = 20 then 1 else 0", THEN conjunct2, THEN conjunct2,
      THEN conjunct2, THEN conjunct2, THEN conjunct1] l
  have e: "\<exists>w1. ll_remove_search two_nodes (\<lambda>v. if v = 20 then 1 else 0) =
             Some (Inr (w1, 1)) \<and> len (lst w1) = 1" by auto
  have "\<exists>w1. ll_remove_find two_nodes (\<lambda>a b. int a - int b) 10 = Some (Inr (w1, 1))"
    by (simp add: eval_defs)
  then obtain w5 where
    "ll_remove_find two_nodes (\<lambda>a b. int a - int b) 10 = Some (Inr (w5, 1))" ..
  with la [of _ _ _ w5 1 _ _ "\<lambda>a b. int a - int b" 10, THEN conjunct2, THEN conjunct2,
      THEN conjunct2, THEN conjunct2, THEN conjunct2] l
  have f: "\<exists>w1. ll_remove_find two_nodes (\<lambda>a b. int a - int b) 10 = Some (Inr (w1, 1)) \<and>
             len (lst w1) = 1" by auto
  from two_nodes_inv h a b b' c d e f show ?thesis by simp
qed

text \<open>
  C2 as stated, for every valid list, fails on a list of \<open>INT_MAX\<close> nodes: the insertion
  at index 0 succeeds, \<^verbatim>\<open>(list->len)++\<close> wraps, and the call returns \<open>INT_MIN\<close>, which
  is also the new \<^verbatim>\<open>len\<close>: the length is not increased by one.
\<close>

theorem insert_at_int_max_length_counterexample:
  "ll_inv (big 2147483647) \<and> fresh 2147483648 (big 2147483647) \<and>
   len (lst (big 2147483647)) = 2147483647 \<and>
   \<not> isl (ll_insert_n 2147483648 (big 2147483647) 7 0) \<and>
   snd (projr (ll_insert_n 2147483648 (big 2147483647) 7 0)) = - 2147483648 \<and>
   len (lst (fst (projr (ll_insert_n 2147483648 (big 2147483647) 7 0)))) = - 2147483648"
proof -
  have b: "int 2147483647 \<le> INT_MAX" by (simp add: INT_MAX_def)
  from big_insert [OF b, of 0 7] obtain w' where
    "ll_insert_n (Suc 2147483647) (big 2147483647) 7 0 = Inr (w', c_int (int 2147483647 + 1))"
    "len (lst w') = c_int (int 2147483647 + 1)" by auto
  then have "ll_insert_n 2147483648 (big 2147483647) 7 0 = Inr (w', - 2147483648)"
    "len (lst w') = - 2147483648" by (simp_all add: c_int_def)
  moreover have "fresh 2147483648 (big 2147483647)" by (simp add: fresh_def big_def)
  moreover have "len (lst (big 2147483647)) = 2147483647" by (simp add: big_def)
  ultimately show ?thesis using big_inv [OF b] by simp
qed

text \<open>
  C3. The claim: after \<^verbatim>\<open>ll_clear\<close> every operation but \<^verbatim>\<open>ll_delete\<close> returns its
  failure value and changes nothing in the list. The code does so for \<^verbatim>\<open>ll_length\<close>,
  \<^verbatim>\<open>ll_insert_n\<close>, \<^verbatim>\<open>ll_remove_n\<close>, \<^verbatim>\<open>ll_pop_first\<close>, \<^verbatim>\<open>ll_remove_search\<close>,
  \<^verbatim>\<open>ll_remove_find\<close>, \<^verbatim>\<open>ll_find\<close>, \<^verbatim>\<open>ll_map\<close>, \<^verbatim>\<open>ll_print\<close>, \<^verbatim>\<open>ll_clear\<close> and
  for \<^verbatim>\<open>ll_get_n\<close> at every index but \<open>-1\<close> (lemma \<open>invalid_list_operations\<close>).
  \<^verbatim>\<open>ll_get_n(list, -1)\<close> does not return on the cleared list: the theorem clears a list
  of two nodes and runs it.
\<close>

theorem get_after_clear_faults:
  "ll_clear two_nodes = Some (Inr cleared_list) \<and>
   ll_get_n cleared_list (- 1) = Inl NullDeref"
  by (simp add: clear_two_nodes get_neg1)

text \<open>
  C4. For a valid list, a value \<open>v\<close> and an index \<open>0 \<le> n \<le> len\<close> with
  \<open>n < INT_MAX\<close>, the insertion \<^verbatim>\<open>ll_insert_n(list, v, n)\<close> succeeds and
  \<^verbatim>\<open>ll_get_n(list, n)\<close> then returns \<open>v\<close>. \<open>fresh p w\<close> is what \<^verbatim>\<open>malloc\<close> guarantees
  for the address of the new node. The list may have \<open>INT_MAX\<close> nodes: the witness
  inserts at index 5 of such a list.
\<close>

theorem get_after_insert:
  assumes "ll_inv w" "fresh p w" "0 \<le> n" "n \<le> len (lst w)" "n < INT_MAX"
  shows "\<exists>w' r w''. ll_insert_n p w v n = Inr (w', r) \<and> r \<noteq> - 1 \<and>
           ll_get_n w' n = Inr (w'', v)"
proof -
  from assms(1) obtain as where r: "rep w as" by (auto simp: ll_inv_rep)
  then have ln: "len (lst w) = int (length as)" and l0: "0 \<le> len (lst w)"
    and lm: "len (lst w) \<le> INT_MAX" by (simp_all add: rep_def)
  let ?as = "take (nat n) as @ p # drop (nat n) as"
  from insert_wrap [OF r assms(2-4), of v] obtain w' where w':
    "ll_insert_n p w v n = Inr (w', c_int (len (lst w) + 1))" "valid_flag (lst w') = VALID"
    "path (heap w') (hd_node (lst w')) ?as NULL" "val_of (heap w') p = v"
    by auto
  have n': "n < int (length ?as)" using assms(3,4) ln by simp
  have "?as ! nat n = p" using assms(3,4) ln by (simp add: nth_append)
  with get_path [OF w'(2,3) assms(3) n' assms(5)] w'(4) obtain tr where
    "ll_get_n w' n = Inr (emit tr w', v)" by auto
  moreover have "c_int (len (lst w) + 1) \<noteq> - 1" using l0 lm by (rule c_int_succ_not_minus_one)
  ultimately show ?thesis using w'(1) by auto
qed

theorem get_after_insert_witness:
  "ll_inv (big 2147483647) \<and> fresh 2147483648 (big 2147483647) \<and> (0::int) \<le> 5 \<and>
   5 \<le> len (lst (big 2147483647)) \<and> 5 < INT_MAX \<and>
   (\<exists>w' r w''. ll_insert_n 2147483648 (big 2147483647) 30 5 = Inr (w', r) \<and> r \<noteq> - 1 \<and>
      ll_get_n w' 5 = Inr (w'', 30)) \<and>
   ll_inv two_nodes \<and> fresh 3 two_nodes \<and> (0::int) \<le> 1 \<and> 1 \<le> len (lst two_nodes) \<and>
   1 < INT_MAX \<and>
   (\<exists>w' r w''. ll_insert_n 3 two_nodes 30 1 = Inr (w', r) \<and> r \<noteq> - 1 \<and>
      ll_get_n w' 1 = Inr (w'', 30))"
proof -
  have b: "int 2147483647 \<le> INT_MAX" by (simp add: INT_MAX_def)
  have g: "fresh 2147483648 (big 2147483647)" "(0::int) \<le> 5"
    "5 \<le> len (lst (big 2147483647))" "5 < INT_MAX"
    by (simp_all add: fresh_def big_def INT_MAX_def)
  have h: "fresh 3 two_nodes" "(0::int) \<le> 1" "1 \<le> len (lst two_nodes)"
    "1 < INT_MAX"
    by (simp_all add: two_nodes_def fresh_def INT_MAX_def)
  from get_after_insert [OF big_inv [OF b] g, of 30]
    get_after_insert [OF two_nodes_inv h, of 30] big_inv [OF b] g two_nodes_inv h
  show ?thesis by simp
qed

text \<open>
  C4 as stated, for every index \<open>0 \<le> n \<le> len\<close>, fails at \<open>n = INT_MAX\<close> on a list of
  \<open>INT_MAX\<close> nodes: the insertion succeeds (it returns \<open>INT_MIN\<close>, not \<open>-1\<close>), and
  \<^verbatim>\<open>ll_get_n\<close> then calls the selection with \<open>n + 1\<close>, which has wrapped below zero, and
  returns null instead of the value 7.
\<close>

theorem get_after_insert_at_int_max_counterexample:
  "ll_inv (big 2147483647) \<and> fresh 2147483648 (big 2147483647) \<and>
   len (lst (big 2147483647)) = 2147483647 \<and>
   \<not> isl (ll_insert_n 2147483648 (big 2147483647) 7 2147483647) \<and>
   snd (projr (ll_insert_n 2147483648 (big 2147483647) 7 2147483647)) = - 2147483648 \<and>
   ll_get_n (fst (projr (ll_insert_n 2147483648 (big 2147483647) 7 2147483647))) 2147483647 =
     Inr (fst (projr (ll_insert_n 2147483648 (big 2147483647) 7 2147483647)), NULL)"
proof -
  have b: "int 2147483647 \<le> INT_MAX" by (simp add: INT_MAX_def)
  from big_insert [OF b, of 2147483647 7] obtain w' where
    "ll_insert_n (Suc 2147483647) (big 2147483647) 7 2147483647 =
       Inr (w', c_int (int 2147483647 + 1))" by auto
  then have "ll_insert_n 2147483648 (big 2147483647) 7 2147483647 = Inr (w', - 2147483648)"
    by (simp add: c_int_def)
  moreover have "fresh 2147483648 (big 2147483647)" by (simp add: fresh_def big_def)
  moreover have "len (lst (big 2147483647)) = 2147483647" by (simp add: big_def)
  ultimately show ?thesis using big_inv [OF b] by (simp add: get_int_max)
qed

text \<open>
  C5. \<^verbatim>\<open>ll_select_n_min_1(list, node, n, mode)\<close>: for \<open>n < 0\<close> it returns \<open>-1\<close> whatever
  the list is, and hands the world back untouched (nothing is read or locked, \<^verbatim>\<open>*node\<close>
  keeps its content); for \<open>n = 0\<close> it returns \<open>0\<close> the same way, with no node
  produced or locked; on a valid list and \<open>1 \<le> n \<le> len\<close> it returns \<open>0\<close> with
  \<^verbatim>\<open>*node\<close> the node at index \<open>n - 1\<close>; on a valid list and \<open>n > len\<close> it returns
  \<open>-1\<close>. In the last two cases the list structure and the heap are as before: only
  lock operations are added to the trace.
\<close>

theorem select_n_min_1_spec:
  "(n < 0 \<longrightarrow> ll_select_n_min_1 w node n lt = Inr (w, node, - 1)) \<and>
   ll_select_n_min_1 w node 0 lt = Inr (w, node, 0) \<and>
   (ll_inv w \<and> 1 \<le> n \<and> n \<le> len (lst w) \<longrightarrow>
      (\<exists>tr as. nodes w = Some as \<and> calls tr = [] \<and>
         ll_select_n_min_1 w node n lt = Inr (emit tr w, as ! nat (n - 1), 0))) \<and>
   (ll_inv w \<and> len (lst w) < n \<longrightarrow>
      (\<exists>tr q. calls tr = [] \<and> ll_select_n_min_1 w node n lt = Inr (emit tr w, q, - 1)))"
proof (intro conjI impI)
  show "ll_select_n_min_1 w node n lt = Inr (w, node, - 1)" if "n < 0"
    using that by (simp add: ll_select_n_min_1_def)
  show "ll_select_n_min_1 w node 0 lt = Inr (w, node, 0)"
    by (simp add: ll_select_n_min_1_def)
  show "\<exists>tr as. nodes w = Some as \<and> calls tr = [] \<and>
          ll_select_n_min_1 w node n lt = Inr (emit tr w, as ! nat (n - 1), 0)"
    if h: "ll_inv w \<and> 1 \<le> n \<and> n \<le> len (lst w)"
  proof -
    from h obtain as where r: "rep w as" by (auto simp: ll_inv_rep)
    from select_rep [OF r, of n node lt] h rep_nodes [OF r] show ?thesis by auto
  qed
  show "\<exists>tr q. calls tr = [] \<and> ll_select_n_min_1 w node n lt = Inr (emit tr w, q, - 1)"
    if h: "ll_inv w \<and> len (lst w) < n"
  proof -
    from h obtain as where r: "rep w as" by (auto simp: ll_inv_rep)
    then have "0 \<le> len (lst w)" by (simp add: rep_def)
    with select_rep [OF r, of n node lt] h show ?thesis by auto
  qed
qed

theorem select_n_min_1_spec_witness:
  "ll_select_n_min_1 two_nodes 7 (- 1) l_read = Inr (two_nodes, 7, - 1) \<and>
   ll_inv two_nodes \<and> (1::int) \<le> 2 \<and> 2 \<le> len (lst two_nodes) \<and>
   (\<exists>tr. ll_select_n_min_1 two_nodes 7 2 l_read = Inr (emit tr two_nodes, 2, 0)) \<and>
   len (lst two_nodes) < 3 \<and>
   (\<exists>tr q. ll_select_n_min_1 two_nodes 7 3 l_read = Inr (emit tr two_nodes, q, - 1))"
proof -
  have l: "len (lst two_nodes) = 2" by (simp add: two_nodes_def)
  from select_n_min_1_spec [of "- 1" two_nodes 7 l_read]
  have a: "ll_select_n_min_1 two_nodes 7 (- 1) l_read = Inr (two_nodes, 7, - 1)" by simp
  from select_n_min_1_spec [of 2 two_nodes 7 l_read] two_nodes_inv l two_nodes_nodes
  have b: "\<exists>tr. ll_select_n_min_1 two_nodes 7 2 l_read = Inr (emit tr two_nodes, 2, 0)"
    by auto
  from select_n_min_1_spec [of 3 two_nodes 7 l_read] two_nodes_inv l
  have c: "\<exists>tr q. ll_select_n_min_1 two_nodes 7 3 l_read = Inr (emit tr two_nodes, q, - 1)"
    by auto
  from a b c two_nodes_inv l show ?thesis by simp
qed

text \<open>
  C6. The structural invariant \<open>ll_inv\<close> (the list is valid, \<^verbatim>\<open>len\<close> is the number of
  nodes met from \<^verbatim>\<open>hd\<close> to null, and no node is met twice) holds for the list that
  \<^verbatim>\<open>ll_new\<close> returns. Every call of insert, remove, pop_first, remove_search,
  remove_find, get, find, map, length or print that returns, whatever its index, keeps
  it, an insert provided the list has fewer than \<open>INT_MAX\<close> nodes. Every sequence of
  such calls that starts in a world with \<open>ll_inv\<close>, each call meeting \<open>pre\<close>, runs to
  its end without a fault and ends in a world with \<open>ll_inv\<close>. \<^verbatim>\<open>ll_clear\<close> ends the
  validity of the list, and with it what the invariant asks.
\<close>

theorem invariant_preserved:
  "ll_inv (ll_new td junk) \<and>
   (ll_inv w \<and> alloc_ok c w \<and> run_call c w = Some (Inr w1) \<longrightarrow> ll_inv w1) \<and>
   (ll_inv w \<and> pres cs w \<longrightarrow> (\<exists>w'. run cs w = Some (Inr w') \<and> ll_inv w')) \<and>
   (ll_clear w = Some (Inr w2) \<longrightarrow> valid_flag (lst w2) = INVALID)"
  using new_inv run_call_preserves run_inv clear_invalidates by blast

theorem invariant_preserved_witness:
  "ll_inv (ll_new 9 4) \<and>
   ll_inv two_nodes \<and> alloc_ok (Insert 3 30 9) two_nodes \<and>
   (\<exists>w1. run_call (Insert 3 30 9) two_nodes = Some (Inr w1) \<and> ll_inv w1) \<and>
   pres example_calls (ll_new 9 4) \<and>
   (\<exists>w'. run example_calls (ll_new 9 4) = Some (Inr w') \<and> ll_inv w') \<and>
   ll_clear two_nodes = Some (Inr cleared_list) \<and> valid_flag (lst cleared_list) = INVALID"
proof -
  have ok: "alloc_ok (Insert 3 30 9) two_nodes" by (simp add: eval_defs)
  have "\<exists>w1. run_call (Insert 3 30 9) two_nodes = Some (Inr w1)" by (simp add: eval_defs)
  then obtain w1 where w1: "run_call (Insert 3 30 9) two_nodes = Some (Inr w1)" ..
  with invariant_preserved [of _ _ two_nodes "Insert 3 30 9" w1, THEN conjunct2,
      THEN conjunct1] two_nodes_inv ok
  have a: "\<exists>w1. run_call (Insert 3 30 9) two_nodes = Some (Inr w1) \<and> ll_inv w1" by auto
  have p: "pres example_calls (ll_new 9 4)"
    by (simp add: example_calls_def eval_defs)
  from invariant_preserved [of 9 4 "ll_new 9 4" _ _ example_calls] p
  have b: "ll_inv (ll_new 9 4)"
    "\<exists>w'. run example_calls (ll_new 9 4) = Some (Inr w') \<and> ll_inv w'" by simp_all
  from invariant_preserved [of _ _ two_nodes _ _ _ cleared_list] clear_two_nodes
  have c: "valid_flag (lst cleared_list) = INVALID" by simp
  from a b c p ok two_nodes_inv clear_two_nodes show ?thesis by simp
qed

text \<open>
  C6 as stated, for every call that respects its index precondition, fails for the
  insertion at index 0 into a valid list of \<open>INT_MAX\<close> nodes: the call returns, and
  in the list it leaves \<^verbatim>\<open>len\<close> is \<open>INT_MIN\<close>, not the number of nodes.
\<close>

theorem insert_breaks_invariant_counterexample:
  "ll_inv (big 2147483647) \<and> fresh 2147483648 (big 2147483647) \<and>
   (0::int) \<le> 0 \<and> 0 \<le> len (lst (big 2147483647)) \<and>
   \<not> isl (ll_insert_n 2147483648 (big 2147483647) 7 0) \<and>
   \<not> ll_inv (fst (projr (ll_insert_n 2147483648 (big 2147483647) 7 0)))"
proof -
  have b: "int 2147483647 \<le> INT_MAX" by (simp add: INT_MAX_def)
  from big_insert [OF b, of 0 7] obtain w' where
    "ll_insert_n (Suc 2147483647) (big 2147483647) 7 0 = Inr (w', c_int (int 2147483647 + 1))"
    "len (lst w') = c_int (int 2147483647 + 1)" by auto
  then have w: "ll_insert_n 2147483648 (big 2147483647) 7 0 = Inr (w', - 2147483648)"
    "len (lst w') = - 2147483648" by (simp_all add: c_int_def)
  then have "\<not> ll_inv w'" by (intro neg_len_not_inv) simp
  moreover have "fresh 2147483648 (big 2147483647)" by (simp add: fresh_def big_def)
  moreover have "len (lst (big 2147483647)) = 2147483647" by (simp add: big_def)
  ultimately show ?thesis using big_inv [OF b] w by simp
qed

text \<open>
  C7. \<^verbatim>\<open>ll_pop_first\<close> on a valid list with first node \<open>a\<close> returns the value of \<open>a\<close>,
  leaves the other nodes as the list, subtracts one from \<^verbatim>\<open>len\<close> and calls no callback;
  on an empty or invalid list it returns null and leaves list and heap as they are. A
  removal by index, predicate or comparator that returns a length (not \<open>-1\<close>) has
  unlinked one node (the node at index \<open>n\<close>, or the first node whose value ends the
  scan) and has called the teardown callback exactly once, on the value of that node.
\<close>

theorem pop_first_and_teardown:
  "(ll_inv w \<and> nodes w = Some (a # as) \<longrightarrow>
      (\<exists>w1. ll_pop_first w = Inr (w1, val_of (heap w) a) \<and> ll_inv w1 \<and>
         nodes w1 = Some as \<and> len (lst w1) = len (lst w) - 1 \<and>
         calls (trace w1) = calls (trace w))) \<and>
   (ll_inv w \<and> nodes w = Some [] \<or> valid_flag (lst w) = INVALID \<longrightarrow>
      (\<exists>w1. ll_pop_first w = Inr (w1, NULL) \<and> lst w1 = lst w \<and> heap w1 = heap w \<and>
         calls (trace w1) = calls (trace w))) \<and>
   (ll_inv w \<and> nodes w = Some bs \<and> ll_remove_n w n = Inr (w', r) \<and> r \<noteq> - 1 \<longrightarrow>
      0 \<le> n \<and> n < len (lst w) \<and>
      nodes w' = Some (take (nat n) bs @ drop (Suc (nat n)) bs) \<and>
      calls (trace w') =
        calls (trace w) @ [(val_teardown (lst w), val_of (heap w) (bs ! nat n))]) \<and>
   (ll_inv w \<and> nodes w = Some bs \<and> ll_remove_search w cond = Some (Inr (w', r)) \<and>
    r \<noteq> - 1 \<longrightarrow>
      (\<exists>xs b ys. bs = xs @ b # ys \<and> (\<forall>x\<in>set xs. cond (val_of (heap w) x) = 0) \<and>
         cond (val_of (heap w) b) \<noteq> 0 \<and> nodes w' = Some (xs @ ys) \<and>
         calls (trace w') =
           calls (trace w) @ [(val_teardown (lst w), val_of (heap w) b)])) \<and>
   (ll_inv w \<and> nodes w = Some bs \<and>
    ll_remove_find w comparator ref_value = Some (Inr (w', r)) \<and> r \<noteq> - 1 \<longrightarrow>
      (\<exists>xs b ys. bs = xs @ b # ys \<and>
         (\<forall>x\<in>set xs. comparator (val_of (heap w) x) ref_value \<noteq> 0) \<and>
         comparator (val_of (heap w) b) ref_value = 0 \<and> nodes w' = Some (xs @ ys) \<and>
         calls (trace w') =
           calls (trace w) @ [(val_teardown (lst w), val_of (heap w) b)]))"
proof -
  have A: "ll_inv w \<and> nodes w = Some (a # as) \<longrightarrow>
      (\<exists>w1. ll_pop_first w = Inr (w1, val_of (heap w) a) \<and> ll_inv w1 \<and>
         nodes w1 = Some as \<and> len (lst w1) = len (lst w) - 1 \<and>
         calls (trace w1) = calls (trace w))"
  proof
    assume "ll_inv w \<and> nodes w = Some (a # as)"
    then have "rep w (a # as)" by (simp add: inv_nodes_rep)
    from pop_rep_cons [OF this]
    show "\<exists>w1. ll_pop_first w = Inr (w1, val_of (heap w) a) \<and> ll_inv w1 \<and>
         nodes w1 = Some as \<and> len (lst w1) = len (lst w) - 1 \<and>
         calls (trace w1) = calls (trace w)"
      by (auto dest: rep_inv rep_nodes)
  qed
  have B: "ll_inv w \<and> nodes w = Some [] \<or> valid_flag (lst w) = INVALID \<longrightarrow>
      (\<exists>w1. ll_pop_first w = Inr (w1, NULL) \<and> lst w1 = lst w \<and> heap w1 = heap w \<and>
         calls (trace w1) = calls (trace w))"
  proof
    assume "ll_inv w \<and> nodes w = Some [] \<or> valid_flag (lst w) = INVALID"
    then have "rep w [] \<or> valid_flag (lst w) \<noteq> VALID" by (auto simp: inv_nodes_rep)
    then have "ll_pop_first w = Inr (emit [Lock ListLock l_write, Unlock ListLock] w, NULL)"
      using pop_rep_empty pop_invalid by blast
    then show "\<exists>w1. ll_pop_first w = Inr (w1, NULL) \<and> lst w1 = lst w \<and>
        heap w1 = heap w \<and> calls (trace w1) = calls (trace w)" by simp
  qed
  have C: "ll_inv w \<and> nodes w = Some bs \<and> ll_remove_n w n = Inr (w', r) \<and> r \<noteq> - 1 \<longrightarrow>
      0 \<le> n \<and> n < len (lst w) \<and>
      nodes w' = Some (take (nat n) bs @ drop (Suc (nat n)) bs) \<and>
      calls (trace w') =
        calls (trace w) @ [(val_teardown (lst w), val_of (heap w) (bs ! nat n))]"
  proof
    assume h: "ll_inv w \<and> nodes w = Some bs \<and> ll_remove_n w n = Inr (w', r) \<and> r \<noteq> - 1"
    then have r: "rep w bs" and res: "ll_remove_n w n = Inr (w', r)" and "r \<noteq> - 1"
      by (simp_all add: inv_nodes_rep)
    with remove_n_cases [OF r res]
    show "0 \<le> n \<and> n < len (lst w) \<and>
        nodes w' = Some (take (nat n) bs @ drop (Suc (nat n)) bs) \<and>
        calls (trace w') =
          calls (trace w) @ [(val_teardown (lst w), val_of (heap w) (bs ! nat n))]"
      by (auto dest: rep_nodes)
  qed
  have scan: "\<exists>xs b ys. bs = xs @ b # ys \<and> (\<forall>x\<in>set xs. go (val_of (heap w) x)) \<and>
         \<not> go (val_of (heap w) b) \<and> nodes w' = Some (xs @ ys) \<and>
         calls (trace w') =
           calls (trace w) @ [(val_teardown (lst w), val_of (heap w) b)]"
    if "ll_inv w" "nodes w = Some bs" "remove_scan w go = Some (Inr (w', r))" "r \<noteq> - 1"
    for go
  proof -
    from that have r: "rep w bs" by (simp add: inv_nodes_rep)
    from remove_scan_cases [OF r that(3)] that(4)
    obtain xs b ys where "bs = xs @ b # ys" "\<forall>x\<in>set xs. go (val_of (heap w) x)"
      "\<not> go (val_of (heap w) b)" "rep w' (xs @ ys)"
      "calls (trace w') = calls (trace w) @ [(val_teardown (lst w), val_of (heap w) b)]"
      by auto
    then show ?thesis using rep_nodes by blast
  qed
  have D: "ll_inv w \<and> nodes w = Some bs \<and> ll_remove_search w cond = Some (Inr (w', r)) \<and>
    r \<noteq> - 1 \<longrightarrow>
      (\<exists>xs b ys. bs = xs @ b # ys \<and> (\<forall>x\<in>set xs. cond (val_of (heap w) x) = 0) \<and>
         cond (val_of (heap w) b) \<noteq> 0 \<and> nodes w' = Some (xs @ ys) \<and>
         calls (trace w') =
           calls (trace w) @ [(val_teardown (lst w), val_of (heap w) b)])"
    using scan [of "\<lambda>v. cond v = 0"] by (simp add: remove_search_scan)
  have E: "ll_inv w \<and> nodes w = Some bs \<and>
    ll_remove_find w comparator ref_value = Some (Inr (w', r)) \<and> r \<noteq> - 1 \<longrightarrow>
      (\<exists>xs b ys. bs = xs @ b # ys \<and>
         (\<forall>x\<in>set xs. comparator (val_of (heap w) x) ref_value \<noteq> 0) \<and>
         comparator (val_of (heap w) b) ref_value = 0 \<and> nodes w' = Some (xs @ ys) \<and>
         calls (trace w') =
           calls (trace w) @ [(val_teardown (lst w), val_of (heap w) b)])"
    using scan [of "\<lambda>v. comparator v ref_value \<noteq> 0"] by (simp add: remove_find_scan)
  show ?thesis by (intro conjI A B C D E)
qed

theorem pop_first_and_teardown_witness:
  "ll_inv two_nodes \<and> nodes two_nodes = Some [1, 2] \<and>
   (\<exists>w1. ll_pop_first two_nodes = Inr (w1, 10) \<and> nodes w1 = Some [2] \<and>
      len (lst w1) = 1 \<and> calls (trace w1) = []) \<and>
   valid_flag (lst cleared_list) = INVALID \<and>
   (\<exists>w1. ll_pop_first cleared_list = Inr (w1, NULL) \<and> lst w1 = lst cleared_list) \<and>
   ll_inv (ll_new 9 0) \<and> nodes (ll_new 9 0) = Some [] \<and>
   (\<exists>w1. ll_pop_first (ll_new 9 0) = Inr (w1, NULL) \<and> lst w1 = lst (ll_new 9 0)) \<and>
   (\<exists>w1 r. ll_remove_n two_nodes 1 = Inr (w1, r) \<and> r \<noteq> - 1 \<and>
      calls (trace w1) = [(9, 20)]) \<and>
   (\<exists>w1 r. ll_remove_search two_nodes (\<lambda>v. if v = 20 then 1 else 0) = Some (Inr (w1, r)) \<and>
      r \<noteq> - 1 \<and> nodes w1 = Some [1] \<and> calls (trace w1) = [(9, 20)]) \<and>
   (\<exists>w1 r. ll_remove_find two_nodes (\<lambda>a b. int a - int b) 10 = Some (Inr (w1, r)) \<and>
      r \<noteq> - 1 \<and> nodes w1 = Some [2] \<and> calls (trace w1) = [(9, 10)])"
proof -
  have v: "val_of (heap two_nodes) 1 = 10" "val_of (heap two_nodes) 2 = 20"
    "calls (trace two_nodes) = []" "val_teardown (lst two_nodes) = 9"
    "len (lst two_nodes) = 2"
    by (simp_all add: two_nodes_def val_of_def)
  have i: "valid_flag (lst cleared_list) = INVALID" by (simp add: cleared_list_def)
  from pop_first_and_teardown [of two_nodes 1 "[2]", THEN conjunct1]
    two_nodes_inv two_nodes_nodes v
  have a: "\<exists>w1. ll_pop_first two_nodes = Inr (w1, 10) \<and> nodes w1 = Some [2] \<and>
      len (lst w1) = 1 \<and> calls (trace w1) = []" by auto
  from pop_first_and_teardown [of cleared_list, THEN conjunct2, THEN conjunct1] i
  have b: "\<exists>w1. ll_pop_first cleared_list = Inr (w1, NULL) \<and> lst w1 = lst cleared_list"
    by auto
  have n0: "nodes (ll_new 9 0) = Some []" by (simp add: nodes_def ll_new_def)
  from pop_first_and_teardown [of "ll_new 9 0", THEN conjunct2, THEN conjunct1] new_inv n0
  have b0: "\<exists>w1. ll_pop_first (ll_new 9 0) = Inr (w1, NULL) \<and> lst w1 = lst (ll_new 9 0)"
    by auto
  have "\<exists>w1. ll_remove_n two_nodes 1 = Inr (w1, 1)" by (simp add: eval_defs)
  then obtain w2 where w2: "ll_remove_n two_nodes 1 = Inr (w2, 1)" ..
  with pop_first_and_teardown [of two_nodes _ _ "[1, 2]" 1 w2 1, THEN conjunct2,
      THEN conjunct2, THEN conjunct1] two_nodes_inv two_nodes_nodes v
  have c: "\<exists>w1 r. ll_remove_n two_nodes 1 = Inr (w1, r) \<and> r \<noteq> - 1 \<and>
      calls (trace w1) = [(9, 20)]" by auto
  let ?c = "\<lambda>v::nat. if v = 20 then 1 else 0::int"
  have "\<exists>w1. ll_remove_search two_nodes ?c = Some (Inr (w1, 1))" by (simp add: eval_defs)
  then obtain w3 where w3: "ll_remove_search two_nodes ?c = Some (Inr (w3, 1))" ..
  with pop_first_and_teardown [of two_nodes _ _ "[1, 2]" _ w3 1 ?c, THEN conjunct2,
      THEN conjunct2, THEN conjunct2, THEN conjunct1] two_nodes_inv two_nodes_nodes
  obtain xs b ys where d0: "[1, 2] = xs @ b # ys" "\<forall>x\<in>set xs. ?c (val_of (heap two_nodes) x) = 0"
    "?c (val_of (heap two_nodes) b) \<noteq> 0" "nodes w3 = Some (xs @ ys)"
    "calls (trace w3) = calls (trace two_nodes) @ [(val_teardown (lst two_nodes), val_of (heap two_nodes) b)]"
    by auto
  from d0(1) have "b = 1 \<or> b = 2" by (metis in_set_conv_decomp insert_iff list.set(2) singletonD list.set(1))
  with d0(3) v have b2: "b = 2" by auto
  with d0(1) have "xs = [1] \<and> ys = []"
    by (cases xs; cases "tl xs"; auto)
  with d0 b2 v w3
  have d: "\<exists>w1 r. ll_remove_search two_nodes ?c = Some (Inr (w1, r)) \<and>
      r \<noteq> - 1 \<and> nodes w1 = Some [1] \<and> calls (trace w1) = [(9, 20)]" by auto
  let ?f = "\<lambda>a b::nat. int a - int b"
  have "\<exists>w1. ll_remove_find two_nodes ?f 10 = Some (Inr (w1, 1))" by (simp add: eval_defs)
  then obtain w4 where w4: "ll_remove_find two_nodes ?f 10 = Some (Inr (w4, 1))" ..
  with pop_first_and_teardown [of two_nodes _ _ "[1, 2]" _ w4 1 _ ?f 10, THEN conjunct2,
      THEN conjunct2, THEN conjunct2, THEN conjunct2] two_nodes_inv two_nodes_nodes
  obtain xs' b' ys' where e0: "[1, 2] = xs' @ b' # ys'"
    "\<forall>x\<in>set xs'. ?f (val_of (heap two_nodes) x) 10 \<noteq> 0"
    "?f (val_of (heap two_nodes) b') 10 = 0" "nodes w4 = Some (xs' @ ys')"
    "calls (trace w4) = calls (trace two_nodes) @ [(val_teardown (lst two_nodes), val_of (heap two_nodes) b')]"
    by auto
  from e0(1) have "b' = 1 \<or> b' = 2" by (metis in_set_conv_decomp insert_iff list.set(2) singletonD list.set(1))
  with e0(3) v have b1: "b' = 1" by auto
  with e0(1) have "xs' = [] \<and> ys' = [2]"
    by (cases xs'; cases "tl xs'"; auto)
  with e0 b1 v w4
  have e: "\<exists>w1 r. ll_remove_find two_nodes ?f 10 = Some (Inr (w1, r)) \<and>
      r \<noteq> - 1 \<and> nodes w1 = Some [2] \<and> calls (trace w1) = [(9, 10)]" by auto
  from two_nodes_inv two_nodes_nodes a i b new_inv n0 b0 c d e show ?thesis by simp
qed

text \<open>
  C8. On a valid list with the invariant, the \<^verbatim>\<open>assert(list->len == 0)\<close> of \<^verbatim>\<open>ll_clear\<close>
  does not fail; with a teardown callback bound, the loop ends, \<^verbatim>\<open>len\<close> is zero after
  it, and \<^verbatim>\<open>ll_clear\<close> returns with the list invalid.
\<close>

theorem clear_assert_holds:
  assumes "ll_inv w"
  shows "ll_clear w \<noteq> Some (Inl AssertFailed) \<and>
         (val_teardown (lst w) \<noteq> NULL \<longrightarrow>
            (\<exists>w'. ll_clear w = Some (Inr w') \<and> len (lst w') = 0 \<and>
               valid_flag (lst w') = INVALID))"
proof -
  from assms obtain as where r: "rep w as" by (auto simp: ll_inv_rep)
  show ?thesis
  proof (cases "val_teardown (lst w) = NULL")
    case False
    from clear_rep [OF r False] show ?thesis by auto
  next
    case True
    show ?thesis
    proof (cases as)
      case Nil
      with r have "hd_node (lst w) = NULL" "len (lst w) = 0" "valid_flag (lst w) = VALID"
        by (auto simp: rep_def)
      moreover have "clear_loop (emit [Lock ListLock l_write] w) NULL =
                       Some (Inr (emit [Lock ListLock l_write] w))"
        by (subst clear_loop.simps) simp
      ultimately have "ll_clear w \<noteq> Some (Inl AssertFailed)"
        by (simp add: ll_clear_def Let_def)
      with True show ?thesis by simp
    next
      case (Cons a as')
      let ?w = "emit [Lock ListLock l_write] w"
      have "path (heap ?w) (hd_node (lst ?w)) (a # as') NULL" "val_teardown (lst ?w) = NULL"
        using r Cons True by (simp_all add: rep_def)
      from clear_loop_null_teardown [OF this] r True show ?thesis
        by (simp add: ll_clear_def Let_def rep_def)
    qed
  qed
qed

theorem clear_assert_holds_witness:
  "ll_inv two_nodes \<and> ll_clear two_nodes \<noteq> Some (Inl AssertFailed) \<and>
   val_teardown (lst two_nodes) \<noteq> NULL \<and>
   (\<exists>w'. ll_clear two_nodes = Some (Inr w') \<and> len (lst w') = 0 \<and>
      valid_flag (lst w') = INVALID)"
proof -
  have "val_teardown (lst two_nodes) \<noteq> NULL" by (simp add: two_nodes_def)
  with clear_assert_holds [OF two_nodes_inv] two_nodes_inv show ?thesis by simp
qed

text \<open>
  C9. On an invalid list \<^verbatim>\<open>ll_clear\<close> only locks and unlocks the list lock: list
  structure and heap are as before and no callback is called; \<^verbatim>\<open>ll_delete\<close> does not
  call \<^verbatim>\<open>ll_clear\<close> at all: heap and trace are as before, and only the list object is
  released. The list that \<^verbatim>\<open>ll_clear\<close> returns for a valid list is invalid, so
  \<^verbatim>\<open>ll_delete\<close> after \<^verbatim>\<open>ll_clear\<close> is that release alone.
\<close>

theorem clear_delete_invalid:
  "(valid_flag (lst w) = INVALID \<longrightarrow>
      ll_clear w = Some (Inr (emit [Lock ListLock l_write, Unlock ListLock] w)) \<and>
      ll_delete w = Some (Inr (heap w, trace w))) \<and>
   (valid_flag (lst w0) = VALID \<and> ll_clear w0 = Some (Inr w) \<longrightarrow>
      valid_flag (lst w) = INVALID \<and> ll_delete w = Some (Inr (heap w, trace w)))"
proof (intro conjI impI)
  assume "valid_flag (lst w) = INVALID"
  then show "ll_clear w = Some (Inr (emit [Lock ListLock l_write, Unlock ListLock] w))"
    and "ll_delete w = Some (Inr (heap w, trace w))"
    by (simp_all add: clear_invalid ll_delete_def)
next
  assume h: "valid_flag (lst w0) = VALID \<and> ll_clear w0 = Some (Inr w)"
  then show i: "valid_flag (lst w) = INVALID"
    by (auto simp: ll_clear_def Let_def split: option.splits sum.splits if_splits)
  then show "ll_delete w = Some (Inr (heap w, trace w))"
    by (simp add: ll_delete_def)
qed

theorem clear_delete_invalid_witness:
  "valid_flag (lst cleared_list) = INVALID \<and>
   ll_clear cleared_list =
     Some (Inr (emit [Lock ListLock l_write, Unlock ListLock] cleared_list)) \<and>
   ll_delete cleared_list = Some (Inr (heap cleared_list, trace cleared_list)) \<and>
   valid_flag (lst two_nodes) = VALID \<and> ll_clear two_nodes = Some (Inr cleared_list)"
proof -
  have i: "valid_flag (lst cleared_list) = INVALID" by (simp add: cleared_list_def)
  have v: "valid_flag (lst two_nodes) = VALID" by (simp add: two_nodes_def)
  from clear_delete_invalid [of cleared_list two_nodes] i v clear_two_nodes
  show ?thesis by simp
qed

text \<open>
  C10. The claim: \<^verbatim>\<open>ll_get_n\<close> returns null for every negative index. For \<open>n < -1\<close> it
  does (lemma \<open>get_negative\<close>). \<^verbatim>\<open>ll_get_n(list, -1)\<close> does not return: the selection
  is called with index 0, succeeds without assigning \<^verbatim>\<open>node\<close>, and \<^verbatim>\<open>node->val\<close>
  dereferences the null pointer. This holds for every list, valid or not.
\<close>

theorem get_minus_one_faults: "ll_get_n w (- 1) = Inl NullDeref"
  by (rule get_neg1)

end
